theory Spec2Isabelle
  imports Main "HOL-Library.Word"
begin

unbundle bit_operations_syntax

section \<open>The exporter object and its render-state bitset\<close>

text \<open>
  \<^verbatim>\<open>WebViewExporter\<close> keeps its render state in \<^verbatim>\<open>m_webViewStates\<close>, a
  \<^verbatim>\<open>QFlags<WebViewState>\<close>, which stores an \<^verbatim>\<open>int\<close>: a 32-bit word here.
  \<^verbatim>\<open>|\<close> is bitwise or, \<^verbatim>\<open>&\<close> bitwise and, \<^verbatim>\<open>==\<close> equality of the stored words.
\<close>

type_synonym WebViewStates = "32 word"

text \<open>
  Modelled from the spec: the enumerators of \<^verbatim>\<open>enum WebViewState\<close>, declared in
  \<^verbatim>\<open>webviewexporter.h\<close>, which is not among the sources. The spec describes a bitset
  of independent boolean facts LoadFinished, WorkFinished and Failed that is reset to empty
  (\<^verbatim>\<open>Started\<close>) when an export starts: \<^verbatim>\<open>Started\<close> is the empty bitset and each flag
  is a bit of its own.
\<close>

definition Started :: WebViewStates where
  "Started = 0"

definition LoadFinished :: WebViewStates where
  "LoadFinished = 1"

definition WorkFinished :: WebViewStates where
  "WorkFinished = 2"

definition Failed :: WebViewStates where
  "Failed = 4"

text \<open>
  A flag is set in a bitset when the bitwise and with it is not zero (what the conversion
  of \<^verbatim>\<open>m_webViewStates & flag\<close> to \<^verbatim>\<open>bool\<close> tests).
\<close>

definition hasFlag :: "WebViewStates \<Rightarrow> WebViewStates \<Rightarrow> bool" where
  "hasFlag s f = (s AND f \<noteq> 0)"

text \<open>
  The values a \<^verbatim>\<open>QFlags<WebViewState>\<close> takes in type-correct code: combinations of the
  declared enumerators, no other bit.
\<close>

definition validStates :: "WebViewStates \<Rightarrow> bool" where
  "validStates s = (s AND NOT (LoadFinished OR WorkFinished OR Failed) = 0)"

text \<open>The fields of \<^verbatim>\<open>WebViewExporter\<close>; \<^verbatim>\<open>m_viewer\<close> records whether the viewer exists.\<close>

record Exporter =
  m_askedToStop :: bool
  m_exportOngoing :: bool
  m_webViewStates :: WebViewStates
  m_viewer :: bool
  m_htmlTemplate :: string
  m_exportHtmlTemplate :: string

definition isWebViewReady :: "Exporter \<Rightarrow> bool" where
  "isWebViewReady e = (m_webViewStates e = (LoadFinished OR WorkFinished))"

definition isWebViewFailed :: "Exporter \<Rightarrow> bool" where
  "isWebViewFailed e = (m_webViewStates e AND Failed \<noteq> 0)"

definition stop :: "Exporter \<Rightarrow> Exporter" where
  "stop e = e\<lparr>m_askedToStop := True\<rparr>"

text \<open>
  What the event loop can deliver to the exporter while it waits: the two signals that
  \<^verbatim>\<open>prepare\<close> connects, the adapter's \<^verbatim>\<open>contentReady\<close> signal with the head, style and
  body fragments, and a call of \<^verbatim>\<open>stop()\<close>.
\<close>

datatype event =
    LoadFinishedSignal
  | WorkFinishedSignal
  | ContentReadySignal string string string
  | StopCall

text \<open>Whether an event is the \<^verbatim>\<open>contentReady\<close> signal.\<close>

fun isContentReady :: "event \<Rightarrow> bool" where
  "isContentReady (ContentReadySignal h s b) = True"
| "isContentReady ev = False"

text \<open>The two lambdas connected in \<^verbatim>\<open>prepare\<close>.\<close>

definition onLoadFinished :: "Exporter \<Rightarrow> Exporter" where
  "onLoadFinished e = e\<lparr>m_webViewStates := m_webViewStates e OR LoadFinished\<rparr>"

definition onWorkFinished :: "Exporter \<Rightarrow> Exporter" where
  "onWorkFinished e = e\<lparr>m_webViewStates := m_webViewStates e OR WorkFinished\<rparr>"

text \<open>
  Delivery of one event outside \<^verbatim>\<open>doExportHtml\<close>: no slot of the exporter is connected
  to \<^verbatim>\<open>contentReady\<close> there (no lambda of an earlier \<^verbatim>\<open>doExportHtml\<close> is left
  connected: one that was stopped before its content arrived would write to a variable that
  no longer exists).
\<close>

fun deliver :: "Exporter \<Rightarrow> event \<Rightarrow> Exporter" where
  "deliver e LoadFinishedSignal = onLoadFinished e"
| "deliver e WorkFinishedSignal = onWorkFinished e"
| "deliver e (ContentReadySignal h s b) = e"
| "deliver e StopCall = stop e"

definition deliverAll :: "Exporter \<Rightarrow> event list \<Rightarrow> Exporter" where
  "deliverAll e evs = foldl deliver e evs"

section \<open>QString and QRegExp\<close>

text \<open>
  A \<^verbatim>\<open>QString\<close> is a list of characters, positions count from 0. Characters are 8-bit
  here and are read as the code points of Latin-1. The operations are Qt's, with the
  behaviour of its documentation. The cursor and the positions of matches, \<^verbatim>\<open>int\<close> in the
  source, never are negative and stay below the length of a string: they are natural numbers
  here, and \<^verbatim>\<open>-1\<close> for no match is \<^verbatim>\<open>None\<close>. Where the source computes with a
  position that can be \<^verbatim>\<open>-1\<close> (\<^verbatim>\<open>lastIndexOf\<close>, \<^verbatim>\<open>mid\<close>), positions are integers.
\<close>

text \<open>\<^verbatim>\<open>QString::replace(int position, int n, const QString &after)\<close>.\<close>

definition replace :: "string \<Rightarrow> nat \<Rightarrow> nat \<Rightarrow> string \<Rightarrow> string" where
  "replace s i n after = (if i > length s then s else take i s @ after @ drop (i + n) s)"

text \<open>
  \<^verbatim>\<open>QString::arg\<close> with one or several string arguments: one pass over the format string
  that puts the k-th argument at each place marker \<^verbatim>\<open>%k\<close>; a substituted argument is
  not scanned again. The format strings of the exporter use the markers \<^verbatim>\<open>%1\<close> to
  \<^verbatim>\<open>%3\<close>, each followed by a character that is no digit.
\<close>

definition isMarker :: "char \<Rightarrow> nat \<Rightarrow> bool" where
  "isMarker d n = (let k = (of_char d :: nat) in 49 \<le> k \<and> k \<le> 57 \<and> k - 48 \<le> n)"

fun arg :: "string \<Rightarrow> string list \<Rightarrow> string" where
  "arg (c # d # cs) as =
     (if c = CHR ''%'' \<and> isMarker d (length as) then as ! ((of_char d :: nat) - 49) @ arg cs as
      else c # arg (d # cs) as)"
| "arg cs as = cs"

text \<open>
  \<^verbatim>\<open>QString::lastIndexOf(QChar ch, int from)\<close> searches backwards from \<^verbatim>\<open>from\<close>; a
  negative \<^verbatim>\<open>from\<close> counts from the end (\<^verbatim>\<open>-1\<close> is the last character); the result is
  \<^verbatim>\<open>-1\<close> when nothing is found or the start is outside the string.
\<close>

definition lastIndexFrom :: "string \<Rightarrow> char \<Rightarrow> nat \<Rightarrow> int" where
  "lastIndexFrom s ch n =
     (case List.find (\<lambda>i. s ! i = ch) (rev [0..<Suc n]) of None \<Rightarrow> - 1 | Some i \<Rightarrow> int i)"

definition lastIndexOf :: "string \<Rightarrow> char \<Rightarrow> int \<Rightarrow> int" where
  "lastIndexOf s ch from =
     (let from' = (if from < 0 then from + int (length s) else from) in
      if from' < 0 \<or> int (length s) \<le> from' then - 1 else lastIndexFrom s ch (nat from'))"

text \<open>
  \<^verbatim>\<open>QString::mid(int position)\<close>: the rest of the string from \<^verbatim>\<open>position\<close>; the whole
  string for a negative position, the null string for a position beyond the end.
\<close>

definition mid :: "string \<Rightarrow> int \<Rightarrow> string" where
  "mid s position =
     (if position > int (length s) then [] else if position < 0 then s else drop (nat position) s)"

text \<open>
  \<^verbatim>\<open>QRegExp\<close>: a word character (\<^verbatim>\<open>\w\<close>) is a letter, a number or an underscore, and
  \<^verbatim>\<open>\b\<close> holds at a position when exactly one of the characters before and after it is a
  word character (the ends of the string count as no word character).
\<close>

definition isLetterOrNumber :: "char \<Rightarrow> bool" where
  "isLetterOrNumber c =
     (let n = (of_char c :: nat) in
        (48 \<le> n \<and> n \<le> 57) \<or> (65 \<le> n \<and> n \<le> 90) \<or> (97 \<le> n \<and> n \<le> 122)
        \<or> n = 170 \<or> n = 178 \<or> n = 179 \<or> n = 181 \<or> n = 185 \<or> n = 186
        \<or> (188 \<le> n \<and> n \<le> 190) \<or> (192 \<le> n \<and> n \<le> 214) \<or> (216 \<le> n \<and> n \<le> 246)
        \<or> 248 \<le> n)"

definition isWord :: "char \<Rightarrow> bool" where
  "isWord c = (isLetterOrNumber c \<or> c = CHR ''_'')"

definition wordBoundary :: "string \<Rightarrow> nat \<Rightarrow> bool" where
  "wordBoundary s i =
     (let wordBefore = (i \<noteq> 0 \<and> i \<le> length s \<and> isWord (s ! (i - 1)));
          wordAfter = (i < length s \<and> isWord (s ! i))
      in wordBefore \<noteq> wordAfter)"

text \<open>
  The result of a successful match: \<^verbatim>\<open>matchedLength()\<close> and the captured texts,
  \<^verbatim>\<open>cap(0)\<close> being the whole match; \<^verbatim>\<open>cap(n)\<close> is empty for a group that does not exist.
\<close>

record RegMatch =
  matchedLength :: nat
  capturedTexts :: "string list"

definition cap :: "RegMatch \<Rightarrow> nat \<Rightarrow> string" where
  "cap m n = (if n < length (capturedTexts m) then capturedTexts m ! n else [])"

text \<open>Whether \<^verbatim>\<open>p\<close> stands at the start of \<^verbatim>\<open>s\<close>.\<close>

definition startsWith :: "string \<Rightarrow> string \<Rightarrow> bool" where
  "startsWith s p = (take (length p) s = p)"

text \<open>\<^verbatim>\<open>QString::contains\<close>: whether \<^verbatim>\<open>sub\<close> occurs somewhere in \<^verbatim>\<open>s\<close>.\<close>

definition contains :: "string \<Rightarrow> string \<Rightarrow> bool" where
  "contains s sub = list_ex (\<lambda>i. startsWith (drop i s) sub) [0..<Suc (length s)]"

text \<open>
  \<^verbatim>\<open>QString::indexOf(QRegExp &rx, int from)\<close>: the first position at or after
  \<^verbatim>\<open>from\<close> where the expression matches, with the match there; \<^verbatim>\<open>None\<close> is the
  result \<^verbatim>\<open>-1\<close>. An expression is given by its match at a position of a string.
\<close>

fun searchFrom :: "(nat \<Rightarrow> RegMatch option) \<Rightarrow> nat \<Rightarrow> nat \<Rightarrow> (nat \<times> RegMatch) option" where
  "searchFrom f i 0 = None"
| "searchFrom f i (Suc n) =
     (case f i of Some m \<Rightarrow> Some (i, m) | None \<Rightarrow> searchFrom f (Suc i) n)"

definition indexOf :: "string \<Rightarrow> (string \<Rightarrow> nat \<Rightarrow> RegMatch option) \<Rightarrow> nat \<Rightarrow> (nat \<times> RegMatch) option" where
  "indexOf s reg from = searchFrom (reg s) from (Suc (length s) - from)"

text \<open>
  The expression of \<^verbatim>\<open>embedStyleResources\<close>,
  \<^verbatim>\<open>\burl\("((file|qrc):[^"\)]+)"\);\<close>: at a word boundary the text \<^verbatim>\<open>url("\<close>, then
  \<^verbatim>\<open>file:\<close> or \<^verbatim>\<open>qrc:\<close> and at least one character that is neither a double quote
  nor a closing parenthesis (group 1; group 2 is the scheme), then a double quote, a closing
  parenthesis and a semicolon. The characters of group 1 cannot be a double quote, so the
  group ends at the first double quote or closing parenthesis, and a position has at most
  one match.
\<close>

definition styleRegExp :: "string \<Rightarrow> nat \<Rightarrow> RegMatch option" where
  \<open>styleRegExp s i =
     (let r = drop i s in
      if wordBoundary s i \<and> startsWith r ''url("'' then
        let r1 = drop 5 r;
            scheme = (if startsWith r1 ''file:'' then ''file''
                      else if startsWith r1 ''qrc:'' then ''qrc'' else [])
        in
          if scheme = [] then None
          else
            let r2 = drop (length scheme + 1) r1;
                body = takeWhile (\<lambda>c. c \<noteq> CHR ''"'' \<and> c \<noteq> CHR '')'') r2
            in
              if body \<noteq> [] \<and> startsWith (drop (length body) r2) ''");'' then
                Some \<lparr>matchedLength = 5 + (length scheme + 1 + length body) + 3,
                      capturedTexts =
                        [take (5 + (length scheme + 1 + length body) + 3) r,
                         scheme @ '':'' @ body, scheme]\<rparr>
              else None
      else None)\<close>

text \<open>
  \<^verbatim>\<open>c_imgRegExp\<close>, \<^verbatim>\<open><img ([^>]*)src="([^"]+)"([^>]*)>\<close>: the text \<^verbatim>\<open><img \<close>, group 1
  without \<^verbatim>\<open>>\<close>, the text \<^verbatim>\<open>src="\<close>, group 2 (at least one character, no double
  quote), a double quote, group 3 without \<^verbatim>\<open>>\<close>, and \<^verbatim>\<open>>\<close>. Group 2 ends at the first
  double quote and group 3 at the first \<^verbatim>\<open>>\<close>, so a match is fixed by the length \<^verbatim>\<open>j\<close>
  of group 1 (\<^verbatim>\<open>imgRegExpFrom\<close>). The quantifiers are greedy: the match taken is the
  one with the longest group 1, which is also the longest match.
\<close>

definition imgRegExpFrom :: "string \<Rightarrow> nat \<Rightarrow> RegMatch option" where
  \<open>imgRegExpFrom r j =
     (let c1 = take j (drop 5 r); r1 = drop (5 + j) r in
      if list_all (\<lambda>c. c \<noteq> CHR ''>'') c1 \<and> startsWith r1 ''src="'' then
        let r2 = drop 5 r1;
            c2 = takeWhile (\<lambda>c. c \<noteq> CHR ''"'') r2;
            r3 = drop (length c2 + 1) r2;
            c3 = takeWhile (\<lambda>c. c \<noteq> CHR ''>'') r3
        in
          if c2 \<noteq> [] \<and> length c2 < length r2 \<and> length c3 < length r3 then
            Some \<lparr>matchedLength = 5 + j + 5 + length c2 + 1 + length c3 + 1,
                  capturedTexts = [take (5 + j + 5 + length c2 + 1 + length c3 + 1) r, c1, c2, c3]\<rparr>
          else None
      else None)\<close>

definition imgRegExp :: "string \<Rightarrow> nat \<Rightarrow> RegMatch option" where
  \<open>imgRegExp s i =
     (let r = drop i s in
      if startsWith r ''<img '' then
        (case List.map_filter (imgRegExpFrom r) (rev [0..<length r]) of
           [] \<Rightarrow> None
         | m # ms \<Rightarrow> Some m)
      else None)\<close>

section \<open>The services the exporter calls\<close>

text \<open>A failed \<^verbatim>\<open>Q_ASSERT\<close> aborts the program.\<close>

datatype error = AssertionFailed

text \<open>
  The functions of Qt and of the application that the exporter calls and that are not among
  the sources are parameters of the model: \<^verbatim>\<open>ConfigMgr::c_appName\<close>,
  \<^verbatim>\<open>PathUtils::pathToUrl\<close>, \<^verbatim>\<open>QUrl::resolved\<close>, \<^verbatim>\<open>WebUtils::toDataUri\<close> and
  \<^verbatim>\<open>WebUtils::copyResource\<close> (an empty result is a failure), the four fill functions of
  \<^verbatim>\<open>HtmlTemplateHelper\<close> (they return the filled template), \<^verbatim>\<open>QFileInfo::completeBaseName\<close>,
  \<^verbatim>\<open>PathUtils::parentDirPath\<close> and \<^verbatim>\<open>concatenateFilePath\<close>, \<^verbatim>\<open>FileUtils::writeFile\<close>
  (with whether the write succeeded, which the caller never sees) and the operations of
  \<^verbatim>\<open>QDir\<close>. A URL is the string of its text; the empty URL is the empty string. The state
  of the file system is of any type \<^typ>\<open>'fs\<close>.
\<close>

record 'fs Services =
  c_appName :: string
  pathToUrl :: "string \<Rightarrow> string"
  resolved :: "string \<Rightarrow> string \<Rightarrow> string"
  toDataUri :: "string \<Rightarrow> bool \<Rightarrow> string"
  copyResource :: "string \<Rightarrow> string \<Rightarrow> 'fs \<Rightarrow> string \<times> 'fs"
  fillTitle :: "string \<Rightarrow> string \<Rightarrow> string"
  fillStyleContent :: "string \<Rightarrow> string \<Rightarrow> string"
  fillHeadContent :: "string \<Rightarrow> string \<Rightarrow> string"
  fillBodyContent :: "string \<Rightarrow> string \<Rightarrow> string"
  completeBaseName :: "string \<Rightarrow> string"
  parentDirPath :: "string \<Rightarrow> string"
  concatenateFilePath :: "string \<Rightarrow> string \<Rightarrow> string"
  writeFile :: "string \<Rightarrow> string \<Rightarrow> 'fs \<Rightarrow> bool \<times> 'fs"
  dirExists :: "string \<Rightarrow> 'fs \<Rightarrow> bool"
  dirIsEmpty :: "string \<Rightarrow> 'fs \<Rightarrow> bool"
  cdUp :: "string \<Rightarrow> string"
  rmdir :: "string \<Rightarrow> string \<Rightarrow> 'fs \<Rightarrow> 'fs"

text \<open>
  The calls that leave the exporter, in the order they are made: the log of a run.
\<close>

datatype call =
    CallSetHtml string string
  | CallSetText string
  | CallSleepWait nat
  | CallDoExportHtml
  | CallSaveContent
  | CallWriteHtmlFile string

record 'fs World =
  schedule :: "event list list"
  fileSystem :: 'fs
  trace :: "call list"

definition called :: "call \<Rightarrow> 'fs World \<Rightarrow> 'fs World" where
  "called c w = w\<lparr>trace := trace w @ [c]\<rparr>"

text \<open>
  Modelled from the spec: \<^verbatim>\<open>Utils::sleepWait\<close>, which is not among the sources. It
  yields to the event loop for the given number of milliseconds, so that the queued signals
  and calls are dispatched before it returns. The schedule holds, for each wait to come, the
  events dispatched during it; after the schedule nothing happens any more.
\<close>

definition sleepWait :: "nat \<Rightarrow> 'fs World \<Rightarrow> event list \<times> 'fs World" where
  "sleepWait ms w =
     (case schedule w of
        [] \<Rightarrow> ([], called (CallSleepWait ms) w)
      | evs # rest \<Rightarrow> (evs, called (CallSleepWait ms) (w\<lparr>schedule := rest\<rparr>)))"

section \<open>Rewriting of resources\<close>

text \<open>
  \<^verbatim>\<open>getResourceRelativePath\<close>: the path from its second-to-last slash on, after a dot. Its
  \<^verbatim>\<open>Q_ASSERT(idx > 0 && idx2 < idx)\<close> is the error branch.
\<close>

definition getResourceRelativePath :: "string \<Rightarrow> error + string" where
  "getResourceRelativePath p_file =
     (let idx = lastIndexOf p_file (CHR ''/'') (- 1);
          idx2 = lastIndexOf p_file (CHR ''/'') (idx - 1)
      in if idx > 0 \<and> idx2 < idx then Inr (''.'' @ mid p_file idx2) else Inl AssertionFailed)"

text \<open>
  The three scans. The body of each \<^verbatim>\<open>while\<close> loop is a step function, which either
  breaks or continues with the new cursor, text and \<^verbatim>\<open>altered\<close> flag; the loop is left
  as a partial function, so that its termination is a theorem and no assumption.
\<close>

datatype 'a iteration = Break | Continue 'a

definition embedStyleStep ::
  "'fs Services \<Rightarrow> nat \<Rightarrow> string \<Rightarrow> bool \<Rightarrow> (nat \<times> string \<times> bool) iteration" where
  \<open>embedStyleStep S pos p_html altered =
     (case indexOf p_html styleRegExp pos of
        None \<Rightarrow> Break
      | Some (idx, reg) \<Rightarrow>
          let dataURI = toDataUri S (cap reg 1) False in
          if dataURI = [] then Continue (idx + matchedLength reg, p_html, altered)
          else
            let newUrl = arg ''url(\'%1\');'' [dataURI] in
            Continue (idx + length newUrl, replace p_html idx (matchedLength reg) newUrl, True))\<close>

partial_function (option) embedStyleLoop ::
  "'fs Services \<Rightarrow> nat \<Rightarrow> string \<Rightarrow> bool \<Rightarrow> (bool \<times> string) option" where
  "embedStyleLoop S pos p_html altered =
     (if pos < length p_html then
        (case embedStyleStep S pos p_html altered of
           Break \<Rightarrow> Some (altered, p_html)
         | Continue (pos', p_html', altered') \<Rightarrow> embedStyleLoop S pos' p_html' altered')
      else Some (altered, p_html))"

definition embedStyleResources :: "'fs Services \<Rightarrow> string \<Rightarrow> (bool \<times> string) option" where
  "embedStyleResources S p_html = embedStyleLoop S 0 p_html False"

definition embedBodyStep ::
  "'fs Services \<Rightarrow> string \<Rightarrow> nat \<Rightarrow> string \<Rightarrow> bool \<Rightarrow> (nat \<times> string \<times> bool) iteration" where
  \<open>embedBodyStep S p_baseUrl pos p_html altered =
     (case indexOf p_html imgRegExp pos of
        None \<Rightarrow> Break
      | Some (idx, reg) \<Rightarrow>
          if cap reg 2 = [] then Continue (idx + matchedLength reg, p_html, altered)
          else
            let srcUrl = resolved S p_baseUrl (cap reg 2);
                dataURI = toDataUri S srcUrl True
            in
              if dataURI = [] then Continue (idx + matchedLength reg, p_html, altered)
              else
                let newUrl = arg ''<img %1src=\'%2\'%3>'' [cap reg 1, dataURI, cap reg 3] in
                Continue (idx + length newUrl, replace p_html idx (matchedLength reg) newUrl, True))\<close>

partial_function (option) embedBodyLoop ::
  "'fs Services \<Rightarrow> string \<Rightarrow> nat \<Rightarrow> string \<Rightarrow> bool \<Rightarrow> (bool \<times> string) option" where
  "embedBodyLoop S p_baseUrl pos p_html altered =
     (if pos < length p_html then
        (case embedBodyStep S p_baseUrl pos p_html altered of
           Break \<Rightarrow> Some (altered, p_html)
         | Continue (pos', p_html', altered') \<Rightarrow> embedBodyLoop S p_baseUrl pos' p_html' altered')
      else Some (altered, p_html))"

definition embedBodyResources ::
  "'fs Services \<Rightarrow> string \<Rightarrow> string \<Rightarrow> (bool \<times> string) option" where
  "embedBodyResources S p_baseUrl p_html =
     (if p_baseUrl = [] then Some (False, p_html) else embedBodyLoop S p_baseUrl 0 p_html False)"

definition fixBodyStep ::
  "'fs Services \<Rightarrow> string \<Rightarrow> string \<Rightarrow> nat \<Rightarrow> string \<Rightarrow> bool \<Rightarrow> 'fs
     \<Rightarrow> error + (nat \<times> string \<times> bool \<times> 'fs) iteration" where
  \<open>fixBodyStep S p_baseUrl p_folder pos p_html altered fs =
     (case indexOf p_html imgRegExp pos of
        None \<Rightarrow> Inr Break
      | Some (idx, reg) \<Rightarrow>
          if cap reg 2 = [] then Inr (Continue (idx + matchedLength reg, p_html, altered, fs))
          else
            let srcUrl = resolved S p_baseUrl (cap reg 2);
                (targetFile, fs') = copyResource S srcUrl p_folder fs
            in
              if targetFile = [] then Inr (Continue (idx + matchedLength reg, p_html, altered, fs'))
              else
                (case getResourceRelativePath targetFile of
                   Inl err \<Rightarrow> Inl err
                 | Inr relativePath \<Rightarrow>
                     let newUrl = arg ''<img %1src="%2"%3>'' [cap reg 1, relativePath, cap reg 3] in
                     Inr (Continue (idx + length newUrl,
                            replace p_html idx (matchedLength reg) newUrl, True, fs'))))\<close>

partial_function (option) fixBodyLoop ::
  "'fs Services \<Rightarrow> string \<Rightarrow> string \<Rightarrow> nat \<Rightarrow> string \<Rightarrow> bool \<Rightarrow> 'fs
     \<Rightarrow> (error + bool \<times> string \<times> 'fs) option" where
  "fixBodyLoop S p_baseUrl p_folder pos p_html altered fs =
     (if pos < length p_html then
        (case fixBodyStep S p_baseUrl p_folder pos p_html altered fs of
           Inl err \<Rightarrow> Some (Inl err)
         | Inr Break \<Rightarrow> Some (Inr (altered, p_html, fs))
         | Inr (Continue (pos', p_html', altered', fs')) \<Rightarrow>
             fixBodyLoop S p_baseUrl p_folder pos' p_html' altered' fs')
      else Some (Inr (altered, p_html, fs)))"

definition fixBodyResources ::
  "'fs Services \<Rightarrow> string \<Rightarrow> string \<Rightarrow> string \<Rightarrow> 'fs
     \<Rightarrow> (error + bool \<times> string \<times> 'fs) option" where
  "fixBodyResources S p_baseUrl p_folder p_html fs =
     (if p_baseUrl = [] then Some (Inr (False, p_html, fs))
      else fixBodyLoop S p_baseUrl p_folder 0 p_html False fs)"

text \<open>
  What one iteration of a scan does to the cursor: it moves strictly forward and stays
  inside the text; the text before the old cursor is unchanged; and the text after the new
  cursor is an end piece of the old text that is strictly shorter than what followed the old
  cursor. So no character is searched for a match start twice.
\<close>

definition advances :: "nat \<Rightarrow> string \<Rightarrow> nat \<Rightarrow> string \<Rightarrow> bool" where
  "advances pos html pos' html' =
     (pos < pos' \<and> pos' \<le> length html'
        \<and> length html' - pos' < length html - pos
        \<and> take pos html' = take pos html
        \<and> drop pos' html' = drop (length html - (length html' - pos')) html)"

section \<open>Writing the HTML file\<close>

text \<open>
  \<^verbatim>\<open>writeHtmlFile\<close> reads the export template of the exporter and changes the file system;
  it is logged in the trace when it is entered. The result of a function that calls a scan
  is \<^verbatim>\<open>None\<close> when it does not return, \<^verbatim>\<open>Some (Inl AssertionFailed)\<close> when an assertion
  fails, and \<^verbatim>\<open>Some (Inr r)\<close> when it returns \<^verbatim>\<open>r\<close>.
\<close>

definition writeHtmlFile ::
  "'fs Services \<Rightarrow> Exporter \<Rightarrow> string \<Rightarrow> string \<Rightarrow> string \<Rightarrow> string \<Rightarrow> string
     \<Rightarrow> bool \<Rightarrow> bool \<Rightarrow> bool \<Rightarrow> 'fs World \<Rightarrow> (error + bool \<times> 'fs World) option" where
  "writeHtmlFile S e p_file p_baseUrl p_headContent p_styleContent p_bodyContent
       p_embedStyles p_completePage p_embedImages w =
     (let w0 = called (CallWriteHtmlFile p_file) w;
          baseName = completeBaseName S p_file;
          title = arg ''%1 - %2'' [baseName, c_appName S];
          resourceFolderName = baseName @ ''_files'';
          resourceFolder = concatenateFilePath S (parentDirPath S p_file) resourceFolderName;
          htmlTemplate = fillTitle S (m_exportHtmlTemplate e) title
      in
        (case (if p_styleContent \<noteq> [] \<and> p_embedStyles then
                 (case embedStyleResources S p_styleContent of
                    None \<Rightarrow> None
                  | Some (altered, styleContent) \<Rightarrow> Some (fillStyleContent S htmlTemplate styleContent))
               else Some htmlTemplate) of
           None \<Rightarrow> None
         | Some htmlTemplate1 \<Rightarrow>
             (let htmlTemplate2 =
                   (if p_headContent \<noteq> [] then fillHeadContent S htmlTemplate1 p_headContent
                    else htmlTemplate1)
              in
                (case (if p_completePage then
                         (if p_embedImages then
                            (case embedBodyResources S p_baseUrl p_bodyContent of
                               None \<Rightarrow> None
                             | Some (altered, bodyContent) \<Rightarrow> Some (Inr (bodyContent, fileSystem w0)))
                          else
                            (case fixBodyResources S p_baseUrl resourceFolder p_bodyContent (fileSystem w0) of
                               None \<Rightarrow> None
                             | Some (Inl err) \<Rightarrow> Some (Inl err)
                             | Some (Inr (altered, bodyContent, fs)) \<Rightarrow> Some (Inr (bodyContent, fs))))
                       else Some (Inr (p_bodyContent, fileSystem w0))) of
                   None \<Rightarrow> None
                 | Some (Inl err) \<Rightarrow> Some (Inl err)
                 | Some (Inr (bodyContent, fs1)) \<Rightarrow>
                     (let htmlTemplate3 = fillBodyContent S htmlTemplate2 bodyContent;
                          (written, fs2) = writeFile S p_file htmlTemplate3 fs1;
                          fs3 = (if dirExists S resourceFolder fs2 \<and> dirIsEmpty S resourceFolder fs2
                                 then rmdir S (cdUp S resourceFolder) resourceFolderName fs2 else fs2)
                      in Some (Inr (True, w0\<lparr>fileSystem := fs3\<rparr>)))))))"

section \<open>The export\<close>

text \<open>
  Modelled from the spec: \<^verbatim>\<open>ExportHtmlOption\<close>, \<^verbatim>\<open>ExportFormat\<close>, \<^verbatim>\<open>ExportOption\<close>
  and \<^verbatim>\<open>File\<close>, whose declarations are not among the sources, with the members and
  functions the exporter uses. \<^verbatim>\<open>m_htmlOption\<close> is a pointer, \<^verbatim>\<open>None\<close> when null.
\<close>

record ExportHtmlOption =
  m_embedStyles :: bool
  m_completePage :: bool
  m_embedImages :: bool
  m_useMimeHtmlFormat :: bool
  m_addOutlinePanel :: bool

datatype ExportFormat = HTML | PDF

record ExportOption =
  m_targetFormat :: ExportFormat
  m_htmlOption :: "ExportHtmlOption option"

record File =
  isMarkdown :: bool
  getContentPath :: string
  getFilePath :: string
  read :: string

text \<open>
  The lambda that \<^verbatim>\<open>doExportHtml\<close> connects to \<^verbatim>\<open>contentReady\<close>, after its
  \<^verbatim>\<open>disconnect\<close>; it sets the local variable \<^verbatim>\<open>state\<close> (0 busy, 1 finished, -1 failed).
\<close>

definition onContentReady ::
  "'fs Services \<Rightarrow> ExportHtmlOption \<Rightarrow> string \<Rightarrow> string \<Rightarrow> string \<Rightarrow> string \<Rightarrow> string
     \<Rightarrow> Exporter \<Rightarrow> 'fs World \<Rightarrow> int \<Rightarrow> (error + Exporter \<times> 'fs World \<times> int) option" where
  "onContentReady S p_htmlOption p_outputFile p_baseUrl p_headContent p_styleContent p_bodyContent
       e w state =
     (if p_bodyContent = [] \<or> m_askedToStop e then Some (Inr (e, w, - 1))
      else
        (case writeHtmlFile S e p_outputFile p_baseUrl p_headContent p_styleContent p_bodyContent
                (m_embedStyles p_htmlOption) (m_completePage p_htmlOption)
                (m_embedImages p_htmlOption) w of
           None \<Rightarrow> None
         | Some (Inl err) \<Rightarrow> Some (Inl err)
         | Some (Inr (written, w')) \<Rightarrow> Some (Inr (e, w', if \<not> written then - 1 else 1))))"

text \<open>
  Delivery of the events of one wait inside \<^verbatim>\<open>doExportHtml\<close>: \<^verbatim>\<open>contentReady\<close> runs
  the lambda while it is connected, and the lambda disconnects itself.
\<close>

fun deliverHtml ::
  "'fs Services \<Rightarrow> ExportHtmlOption \<Rightarrow> string \<Rightarrow> string \<Rightarrow> event
     \<Rightarrow> Exporter \<times> 'fs World \<times> int \<times> bool
     \<Rightarrow> (error + Exporter \<times> 'fs World \<times> int \<times> bool) option" where
  "deliverHtml S p_htmlOption p_outputFile p_baseUrl (ContentReadySignal h s b) (e, w, state, connected) =
     (if connected then
        (case onContentReady S p_htmlOption p_outputFile p_baseUrl h s b e w state of
           None \<Rightarrow> None
         | Some (Inl err) \<Rightarrow> Some (Inl err)
         | Some (Inr (e', w', state')) \<Rightarrow> Some (Inr (e', w', state', False)))
      else Some (Inr (e, w, state, connected)))"
| "deliverHtml S p_htmlOption p_outputFile p_baseUrl ev (e, w, state, connected) =
     Some (Inr (deliver e ev, w, state, connected))"

fun deliverAllHtml ::
  "'fs Services \<Rightarrow> ExportHtmlOption \<Rightarrow> string \<Rightarrow> string \<Rightarrow> event list
     \<Rightarrow> Exporter \<times> 'fs World \<times> int \<times> bool
     \<Rightarrow> (error + Exporter \<times> 'fs World \<times> int \<times> bool) option" where
  "deliverAllHtml S p_htmlOption p_outputFile p_baseUrl [] st = Some (Inr st)"
| "deliverAllHtml S p_htmlOption p_outputFile p_baseUrl (ev # evs) st =
     (case deliverHtml S p_htmlOption p_outputFile p_baseUrl ev st of
        None \<Rightarrow> None
      | Some (Inl err) \<Rightarrow> Some (Inl err)
      | Some (Inr st') \<Rightarrow> deliverAllHtml S p_htmlOption p_outputFile p_baseUrl evs st')"

text \<open>The loop \<^verbatim>\<open>while (state == 0)\<close> of \<^verbatim>\<open>doExportHtml\<close>.\<close>

partial_function (option) waitContentReady ::
  "'fs Services \<Rightarrow> ExportHtmlOption \<Rightarrow> string \<Rightarrow> string
     \<Rightarrow> Exporter \<Rightarrow> 'fs World \<Rightarrow> int \<Rightarrow> bool
     \<Rightarrow> (error + Exporter \<times> 'fs World \<times> int) option" where
  "waitContentReady S p_htmlOption p_outputFile p_baseUrl e w state connected =
     (if state = 0 then
        (case sleepWait 100 w of
           (evs, w1) \<Rightarrow>
             (case deliverAllHtml S p_htmlOption p_outputFile p_baseUrl evs (e, w1, state, connected) of
                None \<Rightarrow> None
              | Some (Inl err) \<Rightarrow> Some (Inl err)
              | Some (Inr (e2, w2, state2, connected2)) \<Rightarrow>
                  if m_askedToStop e2 then Some (Inr (e2, w2, state2))
                  else waitContentReady S p_htmlOption p_outputFile p_baseUrl e2 w2 state2 connected2))
      else Some (Inr (e, w, state)))"

definition doExportHtml ::
  "'fs Services \<Rightarrow> ExportHtmlOption \<Rightarrow> string \<Rightarrow> string \<Rightarrow> Exporter \<Rightarrow> 'fs World
     \<Rightarrow> (error + bool \<times> Exporter \<times> 'fs World) option" where
  "doExportHtml S p_htmlOption p_outputFile p_baseUrl e w =
     (case waitContentReady S p_htmlOption p_outputFile p_baseUrl e
             (called CallSaveContent (called CallDoExportHtml w)) 0 True of
        None \<Rightarrow> None
      | Some (Inl err) \<Rightarrow> Some (Inl err)
      | Some (Inr (e', w', state)) \<Rightarrow> Some (Inr (state = 1, e', w')))"

text \<open>
  The loop \<^verbatim>\<open>while (!isWebViewReady())\<close> of \<^verbatim>\<open>doExport\<close>; the result is false when
  the loop is left by \<^verbatim>\<open>goto exit_export\<close>.
\<close>

partial_function (option) waitWebViewReady ::
  "Exporter \<Rightarrow> 'fs World \<Rightarrow> (bool \<times> Exporter \<times> 'fs World) option" where
  "waitWebViewReady e w =
     (if \<not> isWebViewReady e then
        (case sleepWait 100 w of
           (evs, w1) \<Rightarrow>
             let e1 = deliverAll e evs in
             if m_askedToStop e1 then Some (False, e1, w1)
             else if isWebViewFailed e1 then Some (False, e1, w1)
             else waitWebViewReady e1 w1)
      else Some (True, e, w))"

text \<open>
  \<^verbatim>\<open>doExport\<close>, with the exporter and the world it leaves behind. The four
  \<^verbatim>\<open>Q_ASSERT\<close>s are error branches; \<^verbatim>\<open>ret\<close> is false unless \<^verbatim>\<open>doExportHtml\<close> sets
  it; every return goes through \<^verbatim>\<open>exit_export\<close>, which clears \<^verbatim>\<open>m_exportOngoing\<close>.
\<close>

definition doExport ::
  "'fs Services \<Rightarrow> ExportOption \<Rightarrow> File \<Rightarrow> string \<Rightarrow> Exporter \<Rightarrow> 'fs World
     \<Rightarrow> (error + bool \<times> Exporter \<times> 'fs World) option" where
  "doExport S p_option p_file p_outputFile e w =
     (let e0 = e\<lparr>m_askedToStop := False\<rparr> in
      if \<not> isMarkdown p_file then Some (Inl AssertionFailed)
      else if m_exportOngoing e0 then Some (Inl AssertionFailed)
      else
        let e1 = e0\<lparr>m_exportOngoing := True, m_webViewStates := Started\<rparr>;
            baseUrl = pathToUrl S (getContentPath p_file);
            w1 = called (CallSetText (read p_file)) (called (CallSetHtml (m_htmlTemplate e1) baseUrl) w)
        in
          (case waitWebViewReady e1 w1 of
             None \<Rightarrow> None
           | Some (ready, e2, w2) \<Rightarrow>
              if \<not> ready then Some (Inr (False, e2\<lparr>m_exportOngoing := False\<rparr>, w2))
              else
                (case sleepWait 200 w2 of
                   (evs, w3) \<Rightarrow>
                     let e3 = deliverAll e2 evs in
                     (case m_targetFormat p_option of
                        HTML \<Rightarrow>
                          (case m_htmlOption p_option of
                             None \<Rightarrow> Some (Inl AssertionFailed)
                           | Some htmlOption \<Rightarrow>
                               if m_useMimeHtmlFormat htmlOption then Some (Inl AssertionFailed)
                               else
                                 (case doExportHtml S htmlOption p_outputFile baseUrl e3 w3 of
                                    None \<Rightarrow> None
                                  | Some (Inl err) \<Rightarrow> Some (Inl err)
                                  | Some (Inr (ret, e4, w4)) \<Rightarrow>
                                      Some (Inr (ret, e4\<lparr>m_exportOngoing := False\<rparr>, w4))))
                      | _ \<Rightarrow> Some (Inr (False, e3\<lparr>m_exportOngoing := False\<rparr>, w3))))))"

section \<open>Stub services for the scenarios\<close>

text \<open>
  The scenarios of the spec run the exporter against stubs: a converter that maps every URL
  to the token \<^verbatim>\<open>DATA\<close>, a copy function that reports the copied path as
  \<^verbatim>\<open><folder>/sub/x.png\<close>, templates whose placeholders are filled by name. The file
  system of the stubs is the list of the files written or copied so far, each with its
  content (for a copy, the URL it was copied from).
\<close>

fun fillPlaceholder :: "string \<Rightarrow> string \<Rightarrow> nat \<Rightarrow> string \<Rightarrow> string" where
  "fillPlaceholder name content skip [] = []"
| "fillPlaceholder name content skip (c # cs) =
     (if 0 < skip then fillPlaceholder name content (skip - 1) cs
      else if name \<noteq> [] \<and> startsWith (c # cs) name
        then content @ fillPlaceholder name content (length name - 1) cs
      else c # fillPlaceholder name content 0 cs)"

definition stubParentDirPath :: "string \<Rightarrow> string" where
  "stubParentDirPath p = rev (drop 1 (dropWhile (\<lambda>c. c \<noteq> CHR ''/'') (rev p)))"

definition stubCompleteBaseName :: "string \<Rightarrow> string" where
  "stubCompleteBaseName p =
     (let name = rev (takeWhile (\<lambda>c. c \<noteq> CHR ''/'') (rev p)) in
      if CHR ''.'' \<in> set name then rev (drop 1 (dropWhile (\<lambda>c. c \<noteq> CHR ''.'') (rev name)))
      else name)"

definition stubServices :: "(string \<times> string) list Services" where
  "stubServices =
     \<lparr>c_appName = ''VNote'',
      pathToUrl = (\<lambda>p. ''file://'' @ p),
      resolved = (\<lambda>base rel. rev (dropWhile (\<lambda>c. c \<noteq> CHR ''/'') (rev base)) @ rel),
      toDataUri = (\<lambda>url keepTitle. ''DATA''),
      copyResource = (\<lambda>url folder fs. (folder @ ''/sub/x.png'', fs @ [(folder @ ''/sub/x.png'', url)])),
      fillTitle = (\<lambda>t c. fillPlaceholder ''%TITLE%'' c 0 t),
      fillStyleContent = (\<lambda>t c. fillPlaceholder ''%STYLE%'' c 0 t),
      fillHeadContent = (\<lambda>t c. fillPlaceholder ''%HEAD%'' c 0 t),
      fillBodyContent = (\<lambda>t c. fillPlaceholder ''%BODY%'' c 0 t),
      completeBaseName = stubCompleteBaseName,
      parentDirPath = stubParentDirPath,
      concatenateFilePath = (\<lambda>dir name. dir @ ''/'' @ name),
      writeFile = (\<lambda>p c fs. (True, fs @ [(p, c)])),
      dirExists = (\<lambda>dir fs. list_ex (\<lambda>(p, c). startsWith p (dir @ ''/'')) fs),
      dirIsEmpty = (\<lambda>dir fs. \<not> list_ex (\<lambda>(p, c). startsWith p (dir @ ''/'')) fs),
      cdUp = stubParentDirPath,
      rmdir = (\<lambda>dir name fs. fs)\<rparr>"

definition stubExporter :: Exporter where
  "stubExporter =
     \<lparr>m_askedToStop = False, m_exportOngoing = False, m_webViewStates = Started, m_viewer = True,
      m_htmlTemplate = ''<html>%BODY%</html>'',
      m_exportHtmlTemplate =
        ''<html><head><title>%TITLE%</title><style>%STYLE%</style>%HEAD%</head><body>%BODY%</body></html>''\<rparr>"

definition stubWorld :: "event list list \<Rightarrow> (string \<times> string) list World" where
  "stubWorld evs = \<lparr>schedule = evs, fileSystem = [], trace = []\<rparr>"

section \<open>Facts about the render-state bitset\<close>

lemma bit_LoadFinished: "bit LoadFinished n \<longleftrightarrow> n = 0"
  by (simp add: LoadFinished_def bit_1_iff)

lemma bit_WorkFinished: "bit WorkFinished n \<longleftrightarrow> n = 1"
proof -
  have "bit (push_bit 1 (1::32 word)) n \<longleftrightarrow> n = 1"
    unfolding bit_push_bit_iff bit_1_iff by auto
  moreover have "push_bit 1 (1::32 word) = 2" by simp
  ultimately show ?thesis by (simp only: WorkFinished_def)
qed

lemma bit_Failed: "bit Failed n \<longleftrightarrow> n = 2"
proof -
  have "bit (push_bit 2 (1::32 word)) n \<longleftrightarrow> n = 2"
    unfolding bit_push_bit_iff bit_1_iff by auto
  moreover have "push_bit 2 (1::32 word) = 4" by simp
  ultimately show ?thesis by (simp only: Failed_def)
qed

lemma word32_eq_bits: "(a::32 word) = b \<longleftrightarrow> (\<forall>n. bit a n \<longleftrightarrow> bit b n)"
  by (auto intro: bit_eqI)

lemma and_flag_bit:
  fixes s f :: "32 word"
  assumes f: "\<And>n. bit f n \<longleftrightarrow> n = k"
  shows "s AND f \<noteq> 0 \<longleftrightarrow> bit s k"
  unfolding word32_eq_bits [of "s AND f" 0] bit_and_iff f by auto

lemma hasFlag_LoadFinished: "hasFlag s LoadFinished \<longleftrightarrow> bit s 0"
  unfolding hasFlag_def by (rule and_flag_bit) (rule bit_LoadFinished)

lemma hasFlag_WorkFinished: "hasFlag s WorkFinished \<longleftrightarrow> bit s 1"
  unfolding hasFlag_def by (rule and_flag_bit) (rule bit_WorkFinished)

lemma hasFlag_Failed: "hasFlag s Failed \<longleftrightarrow> bit s 2"
  unfolding hasFlag_def by (rule and_flag_bit) (rule bit_Failed)

lemma validStates_bits: "validStates s \<longleftrightarrow> (\<forall>n. bit s n \<longrightarrow> n < 3)"
  unfolding validStates_def
    word32_eq_bits [of "s AND NOT (LoadFinished OR WorkFinished OR Failed)" 0]
    bit_and_iff bit_or_iff bit_not_iff bit_LoadFinished bit_WorkFinished bit_Failed
  using bit_imp_le_length [of s] by fastforce

lemma ready_bits: "isWebViewReady e \<longleftrightarrow> (\<forall>n. bit (m_webViewStates e) n \<longleftrightarrow> n < 2)"
  unfolding isWebViewReady_def word32_eq_bits [of "m_webViewStates e" "LoadFinished OR WorkFinished"]
    bit_or_iff bit_LoadFinished bit_WorkFinished
  by (metis One_nat_def less_2_cases_iff)

lemma ready_valid_iff:
  assumes v: "validStates (m_webViewStates e)"
  shows "isWebViewReady e \<longleftrightarrow>
    hasFlag (m_webViewStates e) LoadFinished \<and> hasFlag (m_webViewStates e) WorkFinished
      \<and> \<not> hasFlag (m_webViewStates e) Failed"
proof -
  let ?s = "m_webViewStates e"
  have "(\<forall>n. bit ?s n \<longleftrightarrow> n < 2) \<longleftrightarrow> (bit ?s 0 \<and> bit ?s 1 \<and> \<not> bit ?s 2)"
  proof
    assume "\<forall>n. bit ?s n \<longleftrightarrow> n < 2"
    then show "bit ?s 0 \<and> bit ?s 1 \<and> \<not> bit ?s 2" by simp
  next
    assume a: "bit ?s 0 \<and> bit ?s 1 \<and> \<not> bit ?s 2"
    show "\<forall>n. bit ?s n \<longleftrightarrow> n < 2"
    proof
      fix n :: nat
      consider "n = 0" | "n = 1" | "n = 2" | "3 \<le> n" by linarith
      then show "bit ?s n \<longleftrightarrow> n < 2"
      proof cases
        case 4
        then have "\<not> bit ?s n" using v validStates_bits by fastforce
        with 4 show ?thesis by simp
      qed (use a in auto)
    qed
  qed
  then show ?thesis
    unfolding ready_bits hasFlag_LoadFinished hasFlag_WorkFinished hasFlag_Failed .
qed

text \<open>Delivering events only ever adds bits, and only the bits of the signals delivered.\<close>

lemma bit_deliver:
  "bit (m_webViewStates (deliver e ev)) n \<longleftrightarrow>
     bit (m_webViewStates e) n \<or> (ev = LoadFinishedSignal \<and> n = 0) \<or> (ev = WorkFinishedSignal \<and> n = 1)"
  by (cases ev)
    (simp_all add: onLoadFinished_def onWorkFinished_def stop_def bit_or_iff
      bit_LoadFinished bit_WorkFinished)

lemma bit_deliverAll:
  "bit (m_webViewStates (deliverAll e evs)) n \<longleftrightarrow>
     bit (m_webViewStates e) n \<or> (LoadFinishedSignal \<in> set evs \<and> n = 0)
       \<or> (WorkFinishedSignal \<in> set evs \<and> n = 1)"
  unfolding deliverAll_def
proof (induction evs arbitrary: e)
  case Nil
  show ?case by simp
next
  case (Cons ev evs)
  show ?case
    unfolding foldl_Cons Cons.IH bit_deliver by auto
qed

text \<open>
  C1. For every value of the render-state bitset (every combination of the declared flags),
  \<^verbatim>\<open>isWebViewReady()\<close> is true exactly when LoadFinished and WorkFinished are set and
  Failed is not. And in whatever order the signals arrive after the state was reset to
  \<^verbatim>\<open>Started\<close>, the exporter is ready exactly when both the load-finished and the
  work-finished signal have been delivered; the bitset reached is always such a combination.
\<close>

theorem isWebViewReady_iff_flags:
  "(validStates (m_webViewStates e) \<longrightarrow>
      (isWebViewReady e \<longleftrightarrow>
         hasFlag (m_webViewStates e) LoadFinished \<and> hasFlag (m_webViewStates e) WorkFinished
           \<and> \<not> hasFlag (m_webViewStates e) Failed))
   \<and> (isWebViewReady (deliverAll (e\<lparr>m_webViewStates := Started\<rparr>) evs) \<longleftrightarrow>
         LoadFinishedSignal \<in> set evs \<and> WorkFinishedSignal \<in> set evs)
   \<and> validStates (m_webViewStates (deliverAll (e\<lparr>m_webViewStates := Started\<rparr>) evs))"
proof (intro conjI impI)
  assume "validStates (m_webViewStates e)"
  then show "isWebViewReady e \<longleftrightarrow>
         hasFlag (m_webViewStates e) LoadFinished \<and> hasFlag (m_webViewStates e) WorkFinished
           \<and> \<not> hasFlag (m_webViewStates e) Failed"
    by (rule ready_valid_iff)
next
  let ?e = "deliverAll (e\<lparr>m_webViewStates := Started\<rparr>) evs"
  have b: "bit (m_webViewStates ?e) n \<longleftrightarrow>
      (LoadFinishedSignal \<in> set evs \<and> n = 0) \<or> (WorkFinishedSignal \<in> set evs \<and> n = 1)" for n
    unfolding bit_deliverAll by (simp add: Started_def)
  show "isWebViewReady ?e \<longleftrightarrow> LoadFinishedSignal \<in> set evs \<and> WorkFinishedSignal \<in> set evs"
  proof
    assume "isWebViewReady ?e"
    then have "bit (m_webViewStates ?e) 0" "bit (m_webViewStates ?e) 1"
      unfolding ready_bits by simp_all
    then show "LoadFinishedSignal \<in> set evs \<and> WorkFinishedSignal \<in> set evs"
      unfolding b by simp
  next
    assume "LoadFinishedSignal \<in> set evs \<and> WorkFinishedSignal \<in> set evs"
    then show "isWebViewReady ?e"
      unfolding ready_bits b by auto
  qed
  show "validStates (m_webViewStates ?e)"
    unfolding validStates_bits b by auto
qed

theorem isWebViewReady_iff_flags_witness:
  "validStates (m_webViewStates
      \<lparr>m_askedToStop = False, m_exportOngoing = True, m_webViewStates = 3, m_viewer = True,
       m_htmlTemplate = [], m_exportHtmlTemplate = []\<rparr>)
   \<and> isWebViewReady
      \<lparr>m_askedToStop = False, m_exportOngoing = True, m_webViewStates = 3, m_viewer = True,
       m_htmlTemplate = [], m_exportHtmlTemplate = []\<rparr>
   \<and> isWebViewReady (deliverAll
      \<lparr>m_askedToStop = False, m_exportOngoing = True, m_webViewStates = Started, m_viewer = True,
       m_htmlTemplate = [], m_exportHtmlTemplate = []\<rparr> [WorkFinishedSignal, LoadFinishedSignal])
   \<and> \<not> isWebViewReady (deliverAll
      \<lparr>m_askedToStop = False, m_exportOngoing = True, m_webViewStates = Started, m_viewer = True,
       m_htmlTemplate = [], m_exportHtmlTemplate = []\<rparr> [WorkFinishedSignal])"
  using
    isWebViewReady_iff_flags [of "\<lparr>m_askedToStop = False, m_exportOngoing = True,
       m_webViewStates = 3, m_viewer = True, m_htmlTemplate = [], m_exportHtmlTemplate = []\<rparr>"
       "[WorkFinishedSignal, LoadFinishedSignal]"]
    isWebViewReady_iff_flags [of "\<lparr>m_askedToStop = False, m_exportOngoing = True,
       m_webViewStates = 3, m_viewer = True, m_htmlTemplate = [], m_exportHtmlTemplate = []\<rparr>"
       "[WorkFinishedSignal]"]
  by (simp add: validStates_def hasFlag_def LoadFinished_def WorkFinished_def Failed_def)

text \<open>
  C2. Once the Failed flag is set, \<^verbatim>\<open>isWebViewReady()\<close> is false after every further
  sequence of events: the callbacks only or bits in, so the flag stays, and readiness is
  equality with exactly LoadFinished and WorkFinished.
\<close>

theorem failed_never_ready:
  assumes "hasFlag (m_webViewStates e) Failed"
  shows "\<not> isWebViewReady (deliverAll e evs) \<and> isWebViewFailed (deliverAll e evs)"
proof -
  from assms have "bit (m_webViewStates e) 2"
    by (simp add: hasFlag_Failed)
  then have b: "bit (m_webViewStates (deliverAll e evs)) 2"
    unfolding bit_deliverAll by simp
  then have "\<not> isWebViewReady (deliverAll e evs)"
    unfolding ready_bits by (metis less_irrefl)
  moreover from b have "isWebViewFailed (deliverAll e evs)"
    using hasFlag_Failed [of "m_webViewStates (deliverAll e evs)"]
    by (simp add: isWebViewFailed_def hasFlag_def)
  ultimately show ?thesis by simp
qed

theorem failed_never_ready_witness:
  "hasFlag (m_webViewStates
      \<lparr>m_askedToStop = False, m_exportOngoing = True, m_webViewStates = Failed, m_viewer = True,
       m_htmlTemplate = [], m_exportHtmlTemplate = []\<rparr>) Failed
   \<and> \<not> isWebViewReady (deliverAll
      \<lparr>m_askedToStop = False, m_exportOngoing = True, m_webViewStates = Failed, m_viewer = True,
       m_htmlTemplate = [], m_exportHtmlTemplate = []\<rparr> [LoadFinishedSignal, WorkFinishedSignal])"
proof -
  have h: "hasFlag (m_webViewStates
      \<lparr>m_askedToStop = False, m_exportOngoing = True, m_webViewStates = Failed, m_viewer = True,
       m_htmlTemplate = [], m_exportHtmlTemplate = []\<rparr>) Failed"
    by (simp add: hasFlag_def Failed_def)
  show ?thesis
    using h failed_never_ready [OF h, of "[LoadFinishedSignal, WorkFinishedSignal]"] by simp
qed

section \<open>Facts about the scans\<close>


lemma startsWith_length: "startsWith s p \<Longrightarrow> length p \<le> length s"
  unfolding startsWith_def by (metis length_take min.cobounded1)

lemma startsWith_append: "startsWith s p \<Longrightarrow> s = p @ drop (length p) s"
  unfolding startsWith_def by (metis append_take_drop_id)

lemma searchFrom_Some:
  "searchFrom f i n = Some (j, m) \<Longrightarrow>
     i \<le> j \<and> j < i + n \<and> f j = Some m \<and> (\<forall>k. i \<le> k \<and> k < j \<longrightarrow> f k = None)"
proof (induction n arbitrary: i)
  case 0
  then show ?case by simp
next
  case (Suc n)
  show ?case
  proof (cases "f i")
    case None
    with Suc.prems have "searchFrom f (Suc i) n = Some (j, m)" by simp
    from Suc.IH [OF this] have IH: "Suc i \<le> j" "j < Suc i + n" "f j = Some m"
      "\<And>k. Suc i \<le> k \<Longrightarrow> k < j \<Longrightarrow> f k = None" by auto
    have "f k = None" if "i \<le> k" "k < j" for k
    proof (cases "k = i")
      case True
      with None show ?thesis by simp
    next
      case False
      with that have "Suc i \<le> k" by simp
      with that IH show ?thesis by simp
    qed
    with IH show ?thesis by auto
  next
    case (Some a)
    with Suc.prems show ?thesis by auto
  qed
qed

lemma indexOf_Some:
  assumes "indexOf s reg from = Some (idx, m)"
  shows "from \<le> idx" and "idx \<le> length s" and "reg s idx = Some m"
    and "\<And>k. from \<le> k \<Longrightarrow> k < idx \<Longrightarrow> reg s k = None"
  using searchFrom_Some [OF assms [unfolded indexOf_def]] by auto

lemma styleRegExp_Some:
  assumes "styleRegExp s i = Some m"
  shows "0 < matchedLength m \<and> i + matchedLength m \<le> length s"
proof -
  let ?r = "drop i s"
  let ?r1 = "drop 5 ?r"
  let ?scheme = "if startsWith ?r1 ''file:'' then ''file''
                 else if startsWith ?r1 ''qrc:'' then ''qrc'' else []"
  let ?r2 = "drop (length ?scheme + 1) ?r1"
  let ?body = "takeWhile (\<lambda>c. c \<noteq> CHR 0x22 \<and> c \<noteq> CHR '')'') ?r2"
  from assms have a: "startsWith (drop (length ?body) ?r2) [CHR 0x22, CHR '')'', CHR '';'']"
    and m: "matchedLength m = 5 + (length ?scheme + 1 + length ?body) + 3"
    unfolding styleRegExp_def Let_def by (auto split: if_splits)
  from startsWith_length [OF a] have "length ?body + 3 \<le> length ?r2" by simp
  then have "5 + (length ?scheme + 1 + length ?body) + 3 \<le> length ?r"
    by simp
  with m show ?thesis by simp
qed

lemma imgRegExpFrom_Some:
  assumes "imgRegExpFrom r j = Some m"
  shows "0 < matchedLength m \<and> matchedLength m \<le> length r"
proof -
  let ?r2 = "drop 5 (drop (5 + j) r)"
  let ?c2 = "takeWhile (\<lambda>c. c \<noteq> CHR 0x22) ?r2"
  let ?r3 = "drop (length ?c2 + 1) ?r2"
  let ?c3 = "takeWhile (\<lambda>c. c \<noteq> CHR ''>'') ?r3"
  from assms have a: "length ?c3 < length ?r3"
    and m: "matchedLength m = 5 + j + 5 + length ?c2 + 1 + length ?c3 + 1"
    unfolding imgRegExpFrom_def Let_def by (auto split: if_splits)
  from a have "5 + j + 5 + length ?c2 + 1 + length ?c3 + 1 \<le> length r"
    by simp
  with m show ?thesis by simp
qed

lemma imgRegExp_Some:
  assumes "imgRegExp s i = Some m"
  shows "0 < matchedLength m \<and> i + matchedLength m \<le> length s"
proof -
  from assms obtain ms where
    "List.map_filter (imgRegExpFrom (drop i s)) (rev [0..<length (drop i s)]) = m # ms"
    unfolding imgRegExp_def Let_def by (auto split: if_splits list.splits)
  then have "m \<in> set (List.map_filter (imgRegExpFrom (drop i s)) (rev [0..<length (drop i s)]))"
    by simp
  then obtain j where "imgRegExpFrom (drop i s) j = Some m"
    unfolding map_filter_def by auto
  from imgRegExpFrom_Some [OF this] show ?thesis by auto
qed

lemma arg_style: "arg [CHR ''u'', CHR ''r'', CHR ''l'', CHR ''('', CHR 0x27, CHR ''%'', CHR ''1'', CHR 0x27, CHR '')'', CHR '';''] [d]
   = [CHR ''u'', CHR ''r'', CHR ''l'', CHR ''('', CHR 0x27] @ d @ [CHR 0x27, CHR '')'', CHR '';'']"
  by (simp add: isMarker_def)

lemma arg_img_embed:
  \<open>arg ''<img %1src=\'%2\'%3>'' [a, b, c] = ''<img '' @ a @ ''src='' @ [CHR 0x27] @ b @ [CHR 0x27] @ c @ ''>''\<close>
  by (simp add: isMarker_def)

lemma arg_img_fix:
  \<open>arg ''<img %1src="%2"%3>'' [a, b, c] = ''<img '' @ a @ ''src="'' @ b @ ''"'' @ c @ ''>''\<close>
  by (simp add: isMarker_def)

lemma length_replace:
  "i + n \<le> length s \<Longrightarrow> length (replace s i n after) = length s - n + length after"
  by (simp add: replace_def)

lemma take_replace:
  "i \<le> length s \<Longrightarrow> take i (replace s i n after) = take i s"
  by (simp add: replace_def)


lemma advances_skip:
  assumes "pos \<le> idx" "0 < n" "idx + n \<le> length html"
  shows "advances pos html (idx + n) html"
  using assms unfolding advances_def by auto

lemma advances_replace:
  assumes "pos \<le> idx" "0 < n" "idx + n \<le> length html" "0 < length new"
  shows "advances pos html (idx + length new) (replace html idx n new)"
proof -
  let ?html' = "replace html idx n new"
  from assms have l: "length ?html' = idx + length new + (length html - (idx + n))"
    by (simp add: replace_def)
  then have r: "length ?html' - (idx + length new) = length html - (idx + n)" by simp
  from assms have d: "drop (idx + length new) ?html' = drop (idx + n) html"
    by (simp add: replace_def)
  from assms have t: "take pos ?html' = take pos html"
    by (simp add: replace_def)
  have 1: "pos < idx + length new" using assms by linarith
  have 2: "idx + length new \<le> length ?html'" using l by linarith
  have 3: "length ?html' - (idx + length new) < length html - pos"
    using r assms by linarith
  have "length html - (length html - (idx + n)) = idx + n" using assms by linarith
  with d r have 4: "drop (idx + length new) ?html'
      = drop (length html - (length ?html' - (idx + length new))) html"
    by presburger
  from 1 2 3 t 4 show ?thesis
    unfolding advances_def by blast
qed

lemma embedStyleStep_advances:
  assumes "embedStyleStep S pos html a = Continue (pos', html', a')"
  shows "advances pos html pos' html'"
proof -
  from assms obtain idx reg where i: "indexOf html styleRegExp pos = Some (idx, reg)"
    unfolding embedStyleStep_def by (auto split: option.splits)
  note f = indexOf_Some(1) [OF i] styleRegExp_Some [OF indexOf_Some(3) [OF i]]
  show ?thesis
  proof (cases "toDataUri S (cap reg 1) False = []")
    case True
    with assms i have "pos' = idx + matchedLength reg" "html' = html"
      unfolding embedStyleStep_def by simp_all
    with f show ?thesis by (simp add: advances_skip)
  next
    case False
    define newUrl where \<open>newUrl = arg ''url(\'%1\');'' [toDataUri S (cap reg 1) False]\<close>
    from False assms i have "pos' = idx + length newUrl"
      "html' = replace html idx (matchedLength reg) newUrl"
      unfolding embedStyleStep_def Let_def newUrl_def by simp_all
    moreover have "0 < length newUrl"
      by (simp add: newUrl_def isMarker_def)
    ultimately show ?thesis using f by (simp add: advances_replace)
  qed
qed

lemma embedStyleLoop_returns:
  "\<exists>a' out. embedStyleLoop S pos html a = Some (a', out) \<and> take pos out = take pos html"
proof (induction "length html - pos" arbitrary: pos html a rule: less_induct)
  case less
  show ?case
  proof (cases "pos < length html")
    case False
    then show ?thesis by (subst embedStyleLoop.simps) simp
  next
    case True
    show ?thesis
    proof (cases "embedStyleStep S pos html a")
      case Break
      with True show ?thesis by (subst embedStyleLoop.simps) simp
    next
      case (Continue st)
      obtain pos' html' a' where st: "st = (pos', html', a')" by (cases st) auto
      from embedStyleStep_advances [OF Continue [unfolded st]]
      have adv: "advances pos html pos' html'" .
      then have "length html' - pos' < length html - pos" by (simp add: advances_def)
      from less [OF this, of a'] obtain a'' out where
        r: "embedStyleLoop S pos' html' a' = Some (a'', out)" "take pos' out = take pos' html'"
        by blast
      from adv have "pos \<le> pos'" "take pos html' = take pos html" by (simp_all add: advances_def)
      with r(2) have "take pos out = take pos html"
        by (metis min.absorb1 take_take)
      moreover have "embedStyleLoop S pos html a = Some (a'', out)"
        using True Continue st r(1) by (subst embedStyleLoop.simps) simp
      ultimately show ?thesis by blast
    qed
  qed
qed


lemma embedBodyStep_advances:
  assumes "embedBodyStep S base pos html a = Continue (pos', html', a')"
  shows "advances pos html pos' html'"
proof -
  from assms obtain idx reg where i: "indexOf html imgRegExp pos = Some (idx, reg)"
    unfolding embedBodyStep_def by (auto split: option.splits)
  note f = indexOf_Some(1) [OF i] imgRegExp_Some [OF indexOf_Some(3) [OF i]]
  define dataURI where "dataURI = toDataUri S (resolved S base (cap reg 2)) True"
  define newUrl where \<open>newUrl = arg ''<img %1src=\'%2\'%3>'' [cap reg 1, dataURI, cap reg 3]\<close>
  have n: "0 < length newUrl"
    by (simp add: newUrl_def isMarker_def)
  consider "pos' = idx + matchedLength reg" "html' = html"
    | "pos' = idx + length newUrl" "html' = replace html idx (matchedLength reg) newUrl"
    using assms i unfolding embedBodyStep_def Let_def newUrl_def dataURI_def
    by (auto split: if_splits)
  then show ?thesis
  proof cases
    case 1
    with f show ?thesis by (simp add: advances_skip)
  next
    case 2
    with f n show ?thesis by (simp add: advances_replace)
  qed
qed

lemma embedBodyLoop_returns:
  "\<exists>a' out. embedBodyLoop S base pos html a = Some (a', out) \<and> take pos out = take pos html"
proof (induction "length html - pos" arbitrary: pos html a rule: less_induct)
  case less
  show ?case
  proof (cases "pos < length html")
    case False
    then show ?thesis by (subst embedBodyLoop.simps) simp
  next
    case True
    show ?thesis
    proof (cases "embedBodyStep S base pos html a")
      case Break
      with True show ?thesis by (subst embedBodyLoop.simps) simp
    next
      case (Continue st)
      obtain pos' html' a' where st: "st = (pos', html', a')" by (cases st) auto
      from embedBodyStep_advances [OF Continue [unfolded st]]
      have adv: "advances pos html pos' html'" .
      then have "length html' - pos' < length html - pos" by (simp add: advances_def)
      from less [OF this, of a'] obtain a'' out where
        r: "embedBodyLoop S base pos' html' a' = Some (a'', out)" "take pos' out = take pos' html'"
        by blast
      from adv have "pos \<le> pos'" "take pos html' = take pos html" by (simp_all add: advances_def)
      with r(2) have "take pos out = take pos html"
        by (metis min.absorb1 take_take)
      moreover have "embedBodyLoop S base pos html a = Some (a'', out)"
        using True Continue st r(1) by (subst embedBodyLoop.simps) simp
      ultimately show ?thesis by blast
    qed
  qed
qed

lemma fixBodyStep_advances:
  assumes "fixBodyStep S base folder pos html a fs = Inr (Continue (pos', html', a', fs'))"
  shows "advances pos html pos' html'"
proof -
  from assms obtain idx reg where i: "indexOf html imgRegExp pos = Some (idx, reg)"
    unfolding fixBodyStep_def by (auto split: option.splits)
  note f = indexOf_Some(1) [OF i] imgRegExp_Some [OF indexOf_Some(3) [OF i]]
  have \<open>(pos' = idx + matchedLength reg \<and> html' = html)
    \<or> (\<exists>p. pos' = idx + length (arg ''<img %1src="%2"%3>'' [cap reg 1, p, cap reg 3])
          \<and> html' = replace html idx (matchedLength reg) (arg ''<img %1src="%2"%3>'' [cap reg 1, p, cap reg 3]))\<close>
    using assms i unfolding fixBodyStep_def Let_def
    by (auto split: if_splits prod.splits sum.splits)
  then show ?thesis
  proof (elim disjE exE conjE)
    assume "pos' = idx + matchedLength reg" "html' = html"
    with f show ?thesis by (simp add: advances_skip)
  next
    fix p
    define newUrl where \<open>newUrl = arg ''<img %1src="%2"%3>'' [cap reg 1, p, cap reg 3]\<close>
    assume "pos' = idx + length (arg ''<img %1src=\"%2\"%3>'' [cap reg 1, p, cap reg 3])"
      "html' = replace html idx (matchedLength reg) (arg ''<img %1src=\"%2\"%3>'' [cap reg 1, p, cap reg 3])"
    then have "pos' = idx + length newUrl" "html' = replace html idx (matchedLength reg) newUrl"
      unfolding newUrl_def by blast+
    moreover have "0 < length newUrl"
      by (simp add: newUrl_def isMarker_def)
    ultimately show ?thesis using f by (simp add: advances_replace)
  qed
qed

lemma fixBodyLoop_returns:
  "\<exists>r. fixBodyLoop S base folder pos html a fs = Some r
     \<and> (case r of Inl err \<Rightarrow> True | Inr (a', out, fs') \<Rightarrow> take pos out = take pos html)"
proof (induction "length html - pos" arbitrary: pos html a fs rule: less_induct)
  case less
  show ?case
  proof (cases "pos < length html")
    case False
    then show ?thesis by (subst fixBodyLoop.simps) simp
  next
    case True
    show ?thesis
    proof (cases "fixBodyStep S base folder pos html a fs")
      case (Inl err)
      with True show ?thesis by (subst fixBodyLoop.simps) simp
    next
      case (Inr it)
      show ?thesis
      proof (cases it)
        case Break
        with True Inr show ?thesis by (subst fixBodyLoop.simps) simp
      next
        case (Continue st)
        obtain pos' html' a' fs' where st: "st = (pos', html', a', fs')" by (cases st) auto
        from fixBodyStep_advances [OF Inr [unfolded Continue st]]
        have adv: "advances pos html pos' html'" .
        then have "length html' - pos' < length html - pos" by (simp add: advances_def)
        from less [OF this, of a' fs'] obtain r where
          r: "fixBodyLoop S base folder pos' html' a' fs' = Some r"
           "case r of Inl err \<Rightarrow> True | Inr (a', out, fs') \<Rightarrow> take pos' out = take pos' html'"
          by blast
        from adv have p: "pos \<le> pos'" "take pos html' = take pos html" by (simp_all add: advances_def)
        have "case r of Inl err \<Rightarrow> True | Inr (a', out, fs') \<Rightarrow> take pos out = take pos html"
        proof (cases r)
          case (Inr t)
          obtain a'' out fs'' where t: "t = (a'', out, fs'')" by (cases t) auto
          with r(2) Inr have "take pos' out = take pos' html'" by simp
          with p have "take pos out = take pos html" by (metis min.absorb1 take_take)
          with Inr t show ?thesis by simp
        qed simp
        moreover have "fixBodyLoop S base folder pos html a fs = Some r"
          using True Inr Continue st r(1) by (subst fixBodyLoop.simps) simp
        ultimately show ?thesis by blast
      qed
    qed
  qed
qed

text \<open>
  What an iteration that continues has done: the match it examined, where it left the cursor,
  and that the rest of the scan returns with the text before that cursor unchanged.
\<close>

lemma drop_replace:
  "i + n \<le> length s \<Longrightarrow> drop (i + length new) (replace s i n new) = drop (i + n) s"
  by (simp add: replace_def)

lemma advances_inside: "advances pos html pos' html' \<Longrightarrow> pos < length html"
  unfolding advances_def by linarith

lemma embedStyleStep_past:
  assumes "embedStyleStep S pos html a = Continue (pos', html', a')"
  shows \<open>\<exists>idx reg. indexOf html styleRegExp pos = Some (idx, reg)
     \<and> pos \<le> idx \<and> 0 < matchedLength reg \<and> idx + matchedLength reg \<le> length html
     \<and> (\<exists>dataURI newUrl.
           dataURI = toDataUri S (cap reg 1) False
           \<and> newUrl = arg ''url(\'%1\');'' [dataURI] \<and> newUrl \<noteq> []
           \<and> (if dataURI = [] then pos' = idx + matchedLength reg \<and> html' = html
               else pos' = idx + length newUrl
                      \<and> html' = replace html idx (matchedLength reg) newUrl))
     \<and> take idx html' = take idx html
     \<and> drop pos' html' = drop (idx + matchedLength reg) html\<close>
proof -
  from assms obtain idx reg where i: "indexOf html styleRegExp pos = Some (idx, reg)"
    unfolding embedStyleStep_def by (auto split: option.splits)
  note f = indexOf_Some(1) [OF i] styleRegExp_Some [OF indexOf_Some(3) [OF i]]
  define dataURI where "dataURI = toDataUri S (cap reg 1) False"
  define newUrl where \<open>newUrl = arg ''url(\'%1\');'' [dataURI]\<close>
  have n: "newUrl \<noteq> []"
    by (simp add: newUrl_def isMarker_def)
  have c: "if dataURI = [] then pos' = idx + matchedLength reg \<and> html' = html
      else pos' = idx + length newUrl \<and> html' = replace html idx (matchedLength reg) newUrl"
    using assms i unfolding embedStyleStep_def Let_def newUrl_def dataURI_def
    by (simp split: if_splits)
  have t: "take idx html' = take idx html"
    using c f by (simp add: take_replace split: if_splits)
  have d: "drop pos' html' = drop (idx + matchedLength reg) html"
    using c f by (simp add: drop_replace split: if_splits)
  from i f n c t d show ?thesis
    unfolding newUrl_def dataURI_def by blast
qed

lemma embedStyleLoop_step:
  assumes "embedStyleStep S pos html a = Continue (pos', html', a')"
  shows "\<exists>a'' out. embedStyleLoop S pos html a = Some (a'', out)
     \<and> embedStyleLoop S pos' html' a' = Some (a'', out)
     \<and> take pos' out = take pos' html'"
proof -
  from embedStyleLoop_returns [of S pos' html' a'] obtain a'' out where
    r: "embedStyleLoop S pos' html' a' = Some (a'', out)" "take pos' out = take pos' html'"
    by blast
  from advances_inside [OF embedStyleStep_advances [OF assms]] have "pos < length html" .
  with assms r(1) have "embedStyleLoop S pos html a = Some (a'', out)"
    by (subst embedStyleLoop.simps) simp
  with r show ?thesis by blast
qed

lemma embedBodyStep_past:
  assumes "embedBodyStep S base pos html a = Continue (pos', html', a')"
  shows \<open>\<exists>idx reg. indexOf html imgRegExp pos = Some (idx, reg)
     \<and> pos \<le> idx \<and> 0 < matchedLength reg \<and> idx + matchedLength reg \<le> length html
     \<and> (\<exists>dataURI newUrl.
           dataURI = toDataUri S (resolved S base (cap reg 2)) True
           \<and> newUrl = arg ''<img %1src=\'%2\'%3>'' [cap reg 1, dataURI, cap reg 3] \<and> newUrl \<noteq> []
           \<and> (if cap reg 2 = [] \<or> dataURI = [] then pos' = idx + matchedLength reg \<and> html' = html
               else pos' = idx + length newUrl
                      \<and> html' = replace html idx (matchedLength reg) newUrl))
     \<and> take idx html' = take idx html
     \<and> drop pos' html' = drop (idx + matchedLength reg) html\<close>
proof -
  from assms obtain idx reg where i: "indexOf html imgRegExp pos = Some (idx, reg)"
    unfolding embedBodyStep_def by (auto split: option.splits)
  note f = indexOf_Some(1) [OF i] imgRegExp_Some [OF indexOf_Some(3) [OF i]]
  define dataURI where "dataURI = toDataUri S (resolved S base (cap reg 2)) True"
  define newUrl where \<open>newUrl = arg ''<img %1src=\'%2\'%3>'' [cap reg 1, dataURI, cap reg 3]\<close>
  have n: "newUrl \<noteq> []"
    by (simp add: newUrl_def isMarker_def)
  have c: "if cap reg 2 = [] \<or> dataURI = [] then pos' = idx + matchedLength reg \<and> html' = html
      else pos' = idx + length newUrl \<and> html' = replace html idx (matchedLength reg) newUrl"
    using assms i unfolding embedBodyStep_def Let_def newUrl_def dataURI_def
    by (simp split: if_splits)
  have t: "take idx html' = take idx html"
    using c f by (simp add: take_replace split: if_splits)
  have d: "drop pos' html' = drop (idx + matchedLength reg) html"
    using c f by (simp add: drop_replace split: if_splits)
  from i f n c t d show ?thesis
    unfolding newUrl_def dataURI_def by blast
qed

lemma embedBodyLoop_step:
  assumes "embedBodyStep S base pos html a = Continue (pos', html', a')"
  shows "\<exists>a'' out. embedBodyLoop S base pos html a = Some (a'', out)
     \<and> embedBodyLoop S base pos' html' a' = Some (a'', out)
     \<and> take pos' out = take pos' html'"
proof -
  from embedBodyLoop_returns [of S base pos' html' a'] obtain a'' out where
    r: "embedBodyLoop S base pos' html' a' = Some (a'', out)" "take pos' out = take pos' html'"
    by blast
  from advances_inside [OF embedBodyStep_advances [OF assms]] have "pos < length html" .
  with assms r(1) have "embedBodyLoop S base pos html a = Some (a'', out)"
    by (subst embedBodyLoop.simps) simp
  with r show ?thesis by blast
qed

lemma fixBodyStep_past:
  assumes "fixBodyStep S base folder pos html a fs = Inr (Continue (pos', html', a', fs'))"
  shows \<open>\<exists>idx reg. indexOf html imgRegExp pos = Some (idx, reg)
     \<and> pos \<le> idx \<and> 0 < matchedLength reg \<and> idx + matchedLength reg \<le> length html
     \<and> (\<exists>targetFile.
           targetFile = fst (copyResource S (resolved S base (cap reg 2)) folder fs)
           \<and> (if cap reg 2 = [] \<or> targetFile = [] then pos' = idx + matchedLength reg \<and> html' = html
               else \<exists>relativePath newUrl.
                      getResourceRelativePath targetFile = Inr relativePath
                      \<and> newUrl = arg ''<img %1src="%2"%3>'' [cap reg 1, relativePath, cap reg 3]
                      \<and> newUrl \<noteq> []
                      \<and> pos' = idx + length newUrl
                      \<and> html' = replace html idx (matchedLength reg) newUrl))
     \<and> take idx html' = take idx html
     \<and> drop pos' html' = drop (idx + matchedLength reg) html\<close>
proof -
  from assms obtain idx reg where i: "indexOf html imgRegExp pos = Some (idx, reg)"
    unfolding fixBodyStep_def by (auto split: option.splits)
  note f = indexOf_Some(1) [OF i] imgRegExp_Some [OF indexOf_Some(3) [OF i]]
  define targetFile where "targetFile = fst (copyResource S (resolved S base (cap reg 2)) folder fs)"
  have n: \<open>arg ''<img %1src="%2"%3>'' [cap reg 1, p, cap reg 3] \<noteq> []\<close> for p
    by (simp add: isMarker_def)
  have c: \<open>if cap reg 2 = [] \<or> targetFile = [] then pos' = idx + matchedLength reg \<and> html' = html
      else \<exists>relativePath newUrl.
             getResourceRelativePath targetFile = Inr relativePath
             \<and> newUrl = arg ''<img %1src="%2"%3>'' [cap reg 1, relativePath, cap reg 3]
             \<and> newUrl \<noteq> []
             \<and> pos' = idx + length newUrl
             \<and> html' = replace html idx (matchedLength reg) newUrl\<close>
    using assms i n unfolding fixBodyStep_def Let_def targetFile_def
    by (auto simp del: arg.simps split: if_splits prod.splits sum.splits)
  have "take idx html' = take idx html \<and> drop pos' html' = drop (idx + matchedLength reg) html"
    using c f by (auto simp add: take_replace drop_replace simp del: arg.simps split: if_splits)
  with i f c show ?thesis
    unfolding targetFile_def by blast
qed

lemma fixBodyLoop_step:
  assumes "fixBodyStep S base folder pos html a fs = Inr (Continue (pos', html', a', fs'))"
  shows "\<exists>r. fixBodyLoop S base folder pos html a fs = Some r
     \<and> fixBodyLoop S base folder pos' html' a' fs' = Some r
     \<and> (case r of Inl err \<Rightarrow> True | Inr (a'', out, fs'') \<Rightarrow> take pos' out = take pos' html')"
proof -
  from fixBodyLoop_returns [of S base folder pos' html' a' fs'] obtain r where
    r: "fixBodyLoop S base folder pos' html' a' fs' = Some r"
      "case r of Inl err \<Rightarrow> True | Inr (a'', out, fs'') \<Rightarrow> take pos' out = take pos' html'"
    by blast
  from advances_inside [OF fixBodyStep_advances [OF assms]] have "pos < length html" .
  with assms r(1) have "fixBodyLoop S base folder pos html a fs = Some r"
    by (subst fixBodyLoop.simps) simp
  with r show ?thesis by blast
qed

section \<open>Claims about the scans\<close>

text \<open>
  C9. Each of the three rewriting scans terminates on every input: \<^verbatim>\<open>embedStyleResources\<close>,
  \<^verbatim>\<open>embedBodyResources\<close> and \<^verbatim>\<open>fixBodyResources\<close> return a result for every text, every
  base URL and every behaviour of the converter and the copy function. Every iteration that
  continues has examined one segment, the match that \<^verbatim>\<open>indexOf\<close> found at or after the
  cursor, and leaves the cursor right behind it: at \<^verbatim>\<open>idx + reg.matchedLength()\<close> when the
  match was skipped and the text is as it was, at \<^verbatim>\<open>idx + newUrl.size()\<close> when the match
  was replaced by the non-empty \<^verbatim>\<open>newUrl\<close>. In both cases the text before the match is
  unchanged and the text from the new cursor on is exactly the text that followed the match,
  so the cursor moves strictly forward and what is left to scan is strictly shorter. No
  segment is processed twice: the rest of the scan runs from the new cursor, where the next
  match can only start at or after the cursor, and its result has the text before the new
  cursor, the examined segment or its replacement included, as the iteration left it.
\<close>

theorem scans_terminate:
  \<open>(\<exists>r. embedStyleResources S html = Some r)
   \<and> (\<exists>r. embedBodyResources S base html = Some r)
   \<and> (\<exists>r. fixBodyResources S base folder html fs = Some r)
   \<and> (embedStyleStep S pos html a = Continue (pos', html', a') \<longrightarrow>
        advances pos html pos' html'
        \<and> (\<exists>idx reg. indexOf html styleRegExp pos = Some (idx, reg)
             \<and> pos \<le> idx \<and> 0 < matchedLength reg \<and> idx + matchedLength reg \<le> length html
             \<and> (\<exists>dataURI newUrl.
                   dataURI = toDataUri S (cap reg 1) False
                   \<and> newUrl = arg ''url(\'%1\');'' [dataURI] \<and> newUrl \<noteq> []
                   \<and> (if dataURI = [] then pos' = idx + matchedLength reg \<and> html' = html
                       else pos' = idx + length newUrl
                              \<and> html' = replace html idx (matchedLength reg) newUrl))
             \<and> take idx html' = take idx html
             \<and> drop pos' html' = drop (idx + matchedLength reg) html)
        \<and> (\<exists>a'' out. embedStyleLoop S pos html a = Some (a'', out)
             \<and> embedStyleLoop S pos' html' a' = Some (a'', out)
             \<and> take pos' out = take pos' html'))
   \<and> (embedBodyStep S base pos html a = Continue (pos', html', a') \<longrightarrow>
        advances pos html pos' html'
        \<and> (\<exists>idx reg. indexOf html imgRegExp pos = Some (idx, reg)
             \<and> pos \<le> idx \<and> 0 < matchedLength reg \<and> idx + matchedLength reg \<le> length html
             \<and> (\<exists>dataURI newUrl.
                   dataURI = toDataUri S (resolved S base (cap reg 2)) True
                   \<and> newUrl = arg ''<img %1src=\'%2\'%3>'' [cap reg 1, dataURI, cap reg 3]
                   \<and> newUrl \<noteq> []
                   \<and> (if cap reg 2 = [] \<or> dataURI = []
                       then pos' = idx + matchedLength reg \<and> html' = html
                       else pos' = idx + length newUrl
                              \<and> html' = replace html idx (matchedLength reg) newUrl))
             \<and> take idx html' = take idx html
             \<and> drop pos' html' = drop (idx + matchedLength reg) html)
        \<and> (\<exists>a'' out. embedBodyLoop S base pos html a = Some (a'', out)
             \<and> embedBodyLoop S base pos' html' a' = Some (a'', out)
             \<and> take pos' out = take pos' html'))
   \<and> (fixBodyStep S base folder pos html a fs = Inr (Continue (pos', html', a', fs')) \<longrightarrow>
        advances pos html pos' html'
        \<and> (\<exists>idx reg. indexOf html imgRegExp pos = Some (idx, reg)
             \<and> pos \<le> idx \<and> 0 < matchedLength reg \<and> idx + matchedLength reg \<le> length html
             \<and> (\<exists>targetFile.
                   targetFile = fst (copyResource S (resolved S base (cap reg 2)) folder fs)
                   \<and> (if cap reg 2 = [] \<or> targetFile = []
                       then pos' = idx + matchedLength reg \<and> html' = html
                       else \<exists>relativePath newUrl.
                              getResourceRelativePath targetFile = Inr relativePath
                              \<and> newUrl = arg ''<img %1src="%2"%3>'' [cap reg 1, relativePath, cap reg 3]
                              \<and> newUrl \<noteq> []
                              \<and> pos' = idx + length newUrl
                              \<and> html' = replace html idx (matchedLength reg) newUrl))
             \<and> take idx html' = take idx html
             \<and> drop pos' html' = drop (idx + matchedLength reg) html)
        \<and> (\<exists>r. fixBodyLoop S base folder pos html a fs = Some r
             \<and> fixBodyLoop S base folder pos' html' a' fs' = Some r
             \<and> (case r of Inl err \<Rightarrow> True
                 | Inr (a'', out, fs'') \<Rightarrow> take pos' out = take pos' html')))\<close>
proof (intro conjI impI)
  show "\<exists>r. embedStyleResources S html = Some r"
    unfolding embedStyleResources_def using embedStyleLoop_returns [of S 0 html False] by blast
  show "\<exists>r. embedBodyResources S base html = Some r"
    unfolding embedBodyResources_def using embedBodyLoop_returns [of S base 0 html False] by auto
  show "\<exists>r. fixBodyResources S base folder html fs = Some r"
    unfolding fixBodyResources_def using fixBodyLoop_returns [of S base folder 0 html False fs]
    by auto
next
  assume s: "embedStyleStep S pos html a = Continue (pos', html', a')"
  from s show "advances pos html pos' html'" by (rule embedStyleStep_advances)
  from s show \<open>\<exists>idx reg. indexOf html styleRegExp pos = Some (idx, reg)
             \<and> pos \<le> idx \<and> 0 < matchedLength reg \<and> idx + matchedLength reg \<le> length html
             \<and> (\<exists>dataURI newUrl.
                   dataURI = toDataUri S (cap reg 1) False
                   \<and> newUrl = arg ''url(\'%1\');'' [dataURI] \<and> newUrl \<noteq> []
                   \<and> (if dataURI = [] then pos' = idx + matchedLength reg \<and> html' = html
                       else pos' = idx + length newUrl
                              \<and> html' = replace html idx (matchedLength reg) newUrl))
             \<and> take idx html' = take idx html
             \<and> drop pos' html' = drop (idx + matchedLength reg) html\<close>
    by (rule embedStyleStep_past)
  from s show "\<exists>a'' out. embedStyleLoop S pos html a = Some (a'', out)
             \<and> embedStyleLoop S pos' html' a' = Some (a'', out)
             \<and> take pos' out = take pos' html'"
    by (rule embedStyleLoop_step)
next
  assume s: "embedBodyStep S base pos html a = Continue (pos', html', a')"
  from s show "advances pos html pos' html'" by (rule embedBodyStep_advances)
  from s show \<open>\<exists>idx reg. indexOf html imgRegExp pos = Some (idx, reg)
             \<and> pos \<le> idx \<and> 0 < matchedLength reg \<and> idx + matchedLength reg \<le> length html
             \<and> (\<exists>dataURI newUrl.
                   dataURI = toDataUri S (resolved S base (cap reg 2)) True
                   \<and> newUrl = arg ''<img %1src=\'%2\'%3>'' [cap reg 1, dataURI, cap reg 3]
                   \<and> newUrl \<noteq> []
                   \<and> (if cap reg 2 = [] \<or> dataURI = []
                       then pos' = idx + matchedLength reg \<and> html' = html
                       else pos' = idx + length newUrl
                              \<and> html' = replace html idx (matchedLength reg) newUrl))
             \<and> take idx html' = take idx html
             \<and> drop pos' html' = drop (idx + matchedLength reg) html\<close>
    by (rule embedBodyStep_past)
  from s show "\<exists>a'' out. embedBodyLoop S base pos html a = Some (a'', out)
             \<and> embedBodyLoop S base pos' html' a' = Some (a'', out)
             \<and> take pos' out = take pos' html'"
    by (rule embedBodyLoop_step)
next
  assume s: "fixBodyStep S base folder pos html a fs = Inr (Continue (pos', html', a', fs'))"
  from s show "advances pos html pos' html'" by (rule fixBodyStep_advances)
  from s show \<open>\<exists>idx reg. indexOf html imgRegExp pos = Some (idx, reg)
             \<and> pos \<le> idx \<and> 0 < matchedLength reg \<and> idx + matchedLength reg \<le> length html
             \<and> (\<exists>targetFile.
                   targetFile = fst (copyResource S (resolved S base (cap reg 2)) folder fs)
                   \<and> (if cap reg 2 = [] \<or> targetFile = []
                       then pos' = idx + matchedLength reg \<and> html' = html
                       else \<exists>relativePath newUrl.
                              getResourceRelativePath targetFile = Inr relativePath
                              \<and> newUrl = arg ''<img %1src="%2"%3>'' [cap reg 1, relativePath, cap reg 3]
                              \<and> newUrl \<noteq> []
                              \<and> pos' = idx + length newUrl
                              \<and> html' = replace html idx (matchedLength reg) newUrl))
             \<and> take idx html' = take idx html
             \<and> drop pos' html' = drop (idx + matchedLength reg) html\<close>
    by (rule fixBodyStep_past)
  from s show "\<exists>r. fixBodyLoop S base folder pos html a fs = Some r
             \<and> fixBodyLoop S base folder pos' html' a' fs' = Some r
             \<and> (case r of Inl err \<Rightarrow> True
                 | Inr (a'', out, fs'') \<Rightarrow> take pos' out = take pos' html')"
    by (rule fixBodyLoop_step)
qed

declare embedStyleLoop.simps [code] embedBodyLoop.simps [code] fixBodyLoop.simps [code]
  waitContentReady.simps [code] waitWebViewReady.simps [code]

theorem scans_terminate_witness:
  \<open>embedStyleStep stubServices 0 ''a{b:url("file:///a/b.png");}'' False
      = Continue (16, ''a{b:url(\'DATA\');}'', True)
   \<and> advances 0 ''a{b:url("file:///a/b.png");}'' 16 ''a{b:url(\'DATA\');}''
   \<and> indexOf ''a{b:url("file:///a/b.png");}'' styleRegExp 0
      = Some (4, \<lparr>matchedLength = 23,
                  capturedTexts = [''url("file:///a/b.png");'', ''file:///a/b.png'', ''file'']\<rparr>)
   \<and> 16 = 4 + length ''url(\'DATA\');''
   \<and> drop 16 ''a{b:url(\'DATA\');}'' = drop (4 + 23) ''a{b:url("file:///a/b.png");}''
   \<and> embedStyleStep (stubServices\<lparr>toDataUri := (\<lambda>url keepTitle. [])\<rparr>) 0
        ''a{b:url("file:///a/b.png");}'' False
      = Continue (4 + 23, ''a{b:url("file:///a/b.png");}'', False)
   \<and> advances 0 ''a{b:url("file:///a/b.png");}'' (4 + 23) ''a{b:url("file:///a/b.png");}''
   \<and> embedStyleResources stubServices ''a{b:url("file:///a/b.png");}''
      = Some (True, ''a{b:url(\'DATA\');}'')
   \<and> embedBodyResources stubServices ''file:///notes/a.md'' ''<img src="img/x.png"><p/>''
      = Some (True, ''<img src=\'DATA\'><p/>'')
   \<and> fixBodyResources stubServices ''file:///notes/a.md'' ''/out/n_files'' ''<img src="img/x.png"><p/>'' []
      = Some (Inr (True, ''<img src="./sub/x.png"><p/>'',
          [(''/out/n_files/sub/x.png'', ''file:///notes/img/x.png'')]))\<close>
proof -
  have step: \<open>embedStyleStep stubServices 0 ''a{b:url("file:///a/b.png");}'' False
      = Continue (16, ''a{b:url(\'DATA\');}'', True)\<close>
    by code_simp
  have skip: \<open>embedStyleStep (stubServices\<lparr>toDataUri := (\<lambda>url keepTitle. [])\<rparr>) 0
        ''a{b:url("file:///a/b.png");}'' False
      = Continue (4 + 23, ''a{b:url("file:///a/b.png");}'', False)\<close>
    by code_simp
  have idx: \<open>indexOf ''a{b:url("file:///a/b.png");}'' styleRegExp 0
      = Some (4, \<lparr>matchedLength = 23,
                  capturedTexts = [''url("file:///a/b.png");'', ''file:///a/b.png'', ''file'']\<rparr>)\<close>
    by code_simp
  have len: \<open>16 = 4 + length ''url(\'DATA\');''\<close>
    by simp
  have 1: \<open>embedStyleResources stubServices ''a{b:url("file:///a/b.png");}''
      = Some (True, ''a{b:url(\'DATA\');}'')\<close>
    by code_simp
  have 2: \<open>embedBodyResources stubServices ''file:///notes/a.md'' ''<img src="img/x.png"><p/>''
      = Some (True, ''<img src=\'DATA\'><p/>'')\<close>
    by code_simp
  have 3: \<open>fixBodyResources stubServices ''file:///notes/a.md'' ''/out/n_files'' ''<img src="img/x.png"><p/>'' []
      = Some (Inr (True, ''<img src="./sub/x.png"><p/>'',
          [(''/out/n_files/sub/x.png'', ''file:///notes/img/x.png'')]))\<close>
    by code_simp
  from step idx
    scans_terminate [where S = stubServices and pos = 0
      and html = \<open>''a{b:url("file:///a/b.png");}''\<close> and a = False and pos' = 16
      and html' = \<open>''a{b:url(\'DATA\');}''\<close> and a' = True]
  have r: \<open>advances 0 ''a{b:url("file:///a/b.png");}'' 16 ''a{b:url(\'DATA\');}''
      \<and> drop 16 ''a{b:url(\'DATA\');}'' = drop (4 + 23) ''a{b:url("file:///a/b.png");}''\<close>
    by auto
  from skip
    scans_terminate [where S = \<open>stubServices\<lparr>toDataUri := (\<lambda>url keepTitle. [])\<rparr>\<close> and pos = 0
      and html = \<open>''a{b:url("file:///a/b.png");}''\<close> and a = False and pos' = "4 + 23"
      and html' = \<open>''a{b:url("file:///a/b.png");}''\<close> and a' = False]
  have s: \<open>advances 0 ''a{b:url("file:///a/b.png");}'' (4 + 23) ''a{b:url("file:///a/b.png");}''\<close>
    by blast
  from step r idx len skip s 1 2 3 show ?thesis by blast
qed

text \<open>
  C10. With an empty base URL, \<^verbatim>\<open>embedBodyResources\<close> and \<^verbatim>\<open>fixBodyResources\<close> return
  false and leave the body as it is, for every body: no tag is rewritten, and the file system
  is the one they were given, so nothing was copied.
\<close>

theorem empty_baseUrl_unchanged:
  "embedBodyResources S [] html = Some (False, html)
   \<and> fixBodyResources S [] folder html fs = Some (Inr (False, html, fs))"
  by (simp add: embedBodyResources_def fixBodyResources_def)

theorem empty_baseUrl_unchanged_witness:
  \<open>embedBodyResources stubServices [] ''<img src="img/x.png">''
      = Some (False, ''<img src="img/x.png">'')
   \<and> fixBodyResources stubServices [] ''/out/n_files'' ''<img src="img/x.png">'' []
      = Some (Inr (False, ''<img src="img/x.png">'', []))
   \<and> embedBodyResources stubServices ''file:///notes/a.md'' ''<img src="img/x.png">''
      = Some (True, ''<img src=\'DATA\'>'')\<close>
proof -
  have \<open>embedBodyResources stubServices ''file:///notes/a.md'' ''<img src="img/x.png">''
      = Some (True, ''<img src=\'DATA\'>'')\<close>
    by code_simp
  with empty_baseUrl_unchanged [of stubServices \<open>''<img src="img/x.png">''\<close> \<open>''/out/n_files''\<close> "[]"]
  show ?thesis by blast
qed

section \<open>Claims about writeHtmlFile\<close>

lemma embedStyleResources_returns: "\<exists>altered out. embedStyleResources S html = Some (altered, out)"
  unfolding embedStyleResources_def using embedStyleLoop_returns [of S 0 html False] by blast

lemma embedBodyResources_returns: "\<exists>altered out. embedBodyResources S base html = Some (altered, out)"
  unfolding embedBodyResources_def using embedBodyLoop_returns [of S base 0 html False] by auto

lemma fixBodyResources_returns: "\<exists>r. fixBodyResources S base folder html fs = Some r"
  unfolding fixBodyResources_def using fixBodyLoop_returns [of S base folder 0 html False fs] by auto

text \<open>
  The body that goes into the template and the file system after the body was prepared,
  as \<^verbatim>\<open>writeHtmlFile\<close> computes them.
\<close>

lemma writeHtmlFile_returns:
  "\<exists>r. writeHtmlFile S e p_file p_baseUrl p_headContent p_styleContent p_bodyContent
         p_embedStyles p_completePage p_embedImages w = Some r
       \<and> (case r of
            Inl err \<Rightarrow> p_completePage \<and> \<not> p_embedImages \<and> p_baseUrl \<noteq> []
          | Inr (ret, w') \<Rightarrow> ret \<and> schedule w' = schedule w
              \<and> trace w' = trace w @ [CallWriteHtmlFile p_file])"
proof -
  obtain sa sout where s: "embedStyleResources S p_styleContent = Some (sa, sout)"
    using embedStyleResources_returns by blast
  obtain ba bout where b: "embedBodyResources S p_baseUrl p_bodyContent = Some (ba, bout)"
    using embedBodyResources_returns by blast
  obtain fr where f: "fixBodyResources S p_baseUrl
      (concatenateFilePath S (parentDirPath S p_file) (completeBaseName S p_file @ ''_files''))
      p_bodyContent (fileSystem (called (CallWriteHtmlFile p_file) w)) = Some fr"
    by (meson fixBodyResources_returns)
  have fe: "p_baseUrl \<noteq> []" if "fr = Inl err" for err
    using f that by (auto simp: fixBodyResources_def split: if_splits)
  show ?thesis
  proof (cases p_completePage)
    case False
    then show ?thesis
      unfolding writeHtmlFile_def Let_def using s
      by (simp add: called_def split: prod.splits)
  next
    case cp: True
    show ?thesis
    proof (cases p_embedImages)
      case True
      with cp show ?thesis
        unfolding writeHtmlFile_def Let_def using s b
        by (simp add: called_def split: prod.splits)
    next
      case ei: False
      show ?thesis
      proof (cases fr)
        case (Inl err)
        with cp ei fe [of err] show ?thesis
          unfolding writeHtmlFile_def Let_def using s f
          by (simp add: called_def split: prod.splits)
      next
        case (Inr t)
        obtain fa fout ffs where "t = (fa, fout, ffs)" by (cases t) auto
        with Inr cp ei show ?thesis
          unfolding writeHtmlFile_def Let_def using s f
          by (simp add: called_def split: prod.splits)
      qed
    qed
  qed
qed

text \<open>
  C6. \<^verbatim>\<open>writeHtmlFile\<close> returns on every input, and when it returns a value, the value is
  true: whatever \<^verbatim>\<open>FileUtils::writeFile\<close> reports is dropped. The only other outcome is
  the failed assertion of \<^verbatim>\<open>getResourceRelativePath\<close> in folder mode, which ends the
  program before the file is written.
\<close>

theorem writeHtmlFile_true:
  "\<exists>r. writeHtmlFile S e p_file p_baseUrl p_headContent p_styleContent p_bodyContent
         p_embedStyles p_completePage p_embedImages w = Some r
       \<and> (case r of
            Inl err \<Rightarrow> p_completePage \<and> \<not> p_embedImages
          | Inr (ret, w') \<Rightarrow> ret = True)"
proof -
  from writeHtmlFile_returns [of S e p_file p_baseUrl p_headContent p_styleContent p_bodyContent
         p_embedStyles p_completePage p_embedImages w]
  obtain r where "writeHtmlFile S e p_file p_baseUrl p_headContent p_styleContent p_bodyContent
         p_embedStyles p_completePage p_embedImages w = Some r"
    and "case r of
            Inl err \<Rightarrow> p_completePage \<and> \<not> p_embedImages \<and> p_baseUrl \<noteq> []
          | Inr (ret, w') \<Rightarrow> ret \<and> schedule w' = schedule w
              \<and> trace w' = trace w @ [CallWriteHtmlFile p_file]"
    by blast
  then show ?thesis
    by (cases r) auto
qed

theorem writeHtmlFile_true_witness:
  \<open>writeHtmlFile (stubServices\<lparr>writeFile := (\<lambda>p c fs. (False, fs))\<rparr>) stubExporter
      ''/out/n.html'' ''file:///notes/a.md'' ''<meta>'' ''p{color:red}'' ''<p>hi</p>''
      True True True (stubWorld [])
    = Some (Inr (True,
        \<lparr>schedule = [], fileSystem = [], trace = [CallWriteHtmlFile ''/out/n.html'']\<rparr>))\<close>
proof -
  have h: \<open>writeHtmlFile (stubServices\<lparr>writeFile := (\<lambda>p c fs. (False, fs))\<rparr>) stubExporter
      ''/out/n.html'' ''file:///notes/a.md'' ''<meta>'' ''p{color:red}'' ''<p>hi</p>''
      True True True (stubWorld [])
    = Some (Inr (True,
        \<lparr>schedule = [], fileSystem = [], trace = [CallWriteHtmlFile ''/out/n.html'']\<rparr>))\<close>
    by code_simp
  show ?thesis
    using writeHtmlFile_true [of \<open>stubServices\<lparr>writeFile := (\<lambda>p c fs. (False, fs))\<rparr>\<close> stubExporter
      \<open>''/out/n.html''\<close> \<open>''file:///notes/a.md''\<close> \<open>''<meta>''\<close> \<open>''p{color:red}''\<close> \<open>''<p>hi</p>''\<close>
      True True True \<open>stubWorld []\<close>] h
    by simp
qed

text \<open>
  C4, as the code has it. \<^verbatim>\<open>writeHtmlFile\<close> fills the style placeholder only inside
  \<^verbatim>\<open>if (!p_styleContent.isEmpty() && p_embedStyles)\<close>, and there with the style content
  as \<^verbatim>\<open>embedStyleResources\<close> has rewritten it. With \<^verbatim>\<open>embedStyles\<close> false the style
  content is not used at all: the result is the one for the empty style content, and without
  \<^verbatim>\<open>completePage\<close> the file written is the template with the title, the head (when not
  empty) and the body filled in, \<^verbatim>\<open>fillStyleContent\<close> not being called. With
  \<^verbatim>\<open>embedStyles\<close> true and an empty style content the result is again the one without
  styles. In general, for every style content, both values of \<^verbatim>\<open>embedStyles\<close> and each of
  the three ways the body is prepared, the text handed to \<^verbatim>\<open>FileUtils::writeFile\<close> is the
  template after the title, the style content (exactly when it is not empty and
  \<^verbatim>\<open>embedStyles\<close> is true, and then the rewritten one), the head (when not empty) and the
  body were filled in, in this order.
\<close>

theorem writeHtmlFile_styles_not_embedded:
  \<open>writeHtmlFile S e p_file p_baseUrl p_headContent p_styleContent p_bodyContent
       False p_completePage p_embedImages w
     = writeHtmlFile S e p_file p_baseUrl p_headContent [] p_bodyContent
         False p_completePage p_embedImages w
   \<and> (\<exists>written fs.
        writeFile S p_file
          (fillBodyContent S
             (if p_headContent \<noteq> []
              then fillHeadContent S
                     (fillTitle S (m_exportHtmlTemplate e)
                        (arg ''%1 - %2'' [completeBaseName S p_file, c_appName S]))
                     p_headContent
              else fillTitle S (m_exportHtmlTemplate e)
                     (arg ''%1 - %2'' [completeBaseName S p_file, c_appName S]))
             p_bodyContent)
          (fileSystem w) = (written, fs)
        \<and> (\<exists>fs'. writeHtmlFile S e p_file p_baseUrl p_headContent p_styleContent p_bodyContent
               False False p_embedImages w
             = Some (Inr (True, w\<lparr>trace := trace w @ [CallWriteHtmlFile p_file], fileSystem := fs'\<rparr>))
             \<and> (fs' = fs \<or> fs' = rmdir S
                   (cdUp S (concatenateFilePath S (parentDirPath S p_file)
                      (completeBaseName S p_file @ ''_files'')))
                   (completeBaseName S p_file @ ''_files'') fs)))
   \<and> writeHtmlFile S e p_file p_baseUrl p_headContent [] p_bodyContent
       True p_completePage p_embedImages w
     = writeHtmlFile S e p_file p_baseUrl p_headContent [] p_bodyContent
         False p_completePage p_embedImages w
   \<and> (\<exists>altered styleContent.
        embedStyleResources S p_styleContent = Some (altered, styleContent)
        \<and> (let title = arg ''%1 - %2'' [completeBaseName S p_file, c_appName S];
               resourceFolderName = completeBaseName S p_file @ ''_files'';
               resourceFolder = concatenateFilePath S (parentDirPath S p_file) resourceFolderName;
               htmlTemplate0 = fillTitle S (m_exportHtmlTemplate e) title;
               htmlTemplate1 =
                 (if p_styleContent \<noteq> [] \<and> p_embedStyles
                  then fillStyleContent S htmlTemplate0 styleContent else htmlTemplate0);
               htmlTemplate2 =
                 (if p_headContent \<noteq> [] then fillHeadContent S htmlTemplate1 p_headContent
                  else htmlTemplate1);
               writes = (\<lambda>bodyContent fs1 result.
                 \<exists>written fs2.
                   writeFile S p_file (fillBodyContent S htmlTemplate2 bodyContent) fs1 = (written, fs2)
                   \<and> result = Some (Inr (True,
                        w\<lparr>trace := trace w @ [CallWriteHtmlFile p_file],
                          fileSystem :=
                            (if dirExists S resourceFolder fs2 \<and> dirIsEmpty S resourceFolder fs2
                             then rmdir S (cdUp S resourceFolder) resourceFolderName fs2
                             else fs2)\<rparr>)))
           in
             writes p_bodyContent (fileSystem w)
               (writeHtmlFile S e p_file p_baseUrl p_headContent p_styleContent p_bodyContent
                  p_embedStyles False p_embedImages w)
             \<and> (\<exists>altered' bodyContent.
                  embedBodyResources S p_baseUrl p_bodyContent = Some (altered', bodyContent)
                  \<and> writes bodyContent (fileSystem w)
                      (writeHtmlFile S e p_file p_baseUrl p_headContent p_styleContent p_bodyContent
                         p_embedStyles True True w))
             \<and> (\<exists>fixed.
                  fixBodyResources S p_baseUrl resourceFolder p_bodyContent (fileSystem w) = Some fixed
                  \<and> (case fixed of
                        Inl err \<Rightarrow>
                          writeHtmlFile S e p_file p_baseUrl p_headContent p_styleContent p_bodyContent
                            p_embedStyles True False w = Some (Inl err)
                      | Inr (altered', bodyContent, fs1) \<Rightarrow>
                          writes bodyContent fs1
                            (writeHtmlFile S e p_file p_baseUrl p_headContent p_styleContent
                               p_bodyContent p_embedStyles True False w)))))\<close>
proof (intro conjI)
  show "writeHtmlFile S e p_file p_baseUrl p_headContent p_styleContent p_bodyContent
       False p_completePage p_embedImages w
     = writeHtmlFile S e p_file p_baseUrl p_headContent [] p_bodyContent
         False p_completePage p_embedImages w"
    unfolding writeHtmlFile_def by simp
next
  show "writeHtmlFile S e p_file p_baseUrl p_headContent [] p_bodyContent
       True p_completePage p_embedImages w
     = writeHtmlFile S e p_file p_baseUrl p_headContent [] p_bodyContent
         False p_completePage p_embedImages w"
    unfolding writeHtmlFile_def by simp
next
  let ?t = "fillBodyContent S
             (if p_headContent \<noteq> []
              then fillHeadContent S
                     (fillTitle S (m_exportHtmlTemplate e)
                        (arg ''%1 - %2'' [completeBaseName S p_file, c_appName S]))
                     p_headContent
              else fillTitle S (m_exportHtmlTemplate e)
                     (arg ''%1 - %2'' [completeBaseName S p_file, c_appName S]))
             p_bodyContent"
  obtain written fs where wf: "writeFile S p_file ?t (fileSystem w) = (written, fs)"
    by (cases "writeFile S p_file ?t (fileSystem w)") auto
  then show "\<exists>written fs. writeFile S p_file ?t (fileSystem w) = (written, fs)
        \<and> (\<exists>fs'. writeHtmlFile S e p_file p_baseUrl p_headContent p_styleContent p_bodyContent
               False False p_embedImages w
             = Some (Inr (True, w\<lparr>trace := trace w @ [CallWriteHtmlFile p_file], fileSystem := fs'\<rparr>))
             \<and> (fs' = fs \<or> fs' = rmdir S
                   (cdUp S (concatenateFilePath S (parentDirPath S p_file)
                      (completeBaseName S p_file @ ''_files'')))
                   (completeBaseName S p_file @ ''_files'') fs))"
    unfolding writeHtmlFile_def Let_def
    by (auto simp add: called_def simp del: arg.simps)
next
  define title where "title = arg ''%1 - %2'' [completeBaseName S p_file, c_appName S]"
  define resourceFolderName where "resourceFolderName = completeBaseName S p_file @ ''_files''"
  define resourceFolder where
    "resourceFolder = concatenateFilePath S (parentDirPath S p_file) resourceFolderName"
  define htmlTemplate0 where "htmlTemplate0 = fillTitle S (m_exportHtmlTemplate e) title"
  obtain altered styleContent where
    s: "embedStyleResources S p_styleContent = Some (altered, styleContent)"
    using embedStyleResources_returns by blast
  define htmlTemplate1 where "htmlTemplate1 =
     (if p_styleContent \<noteq> [] \<and> p_embedStyles
      then fillStyleContent S htmlTemplate0 styleContent else htmlTemplate0)"
  define htmlTemplate2 where "htmlTemplate2 =
     (if p_headContent \<noteq> [] then fillHeadContent S htmlTemplate1 p_headContent
      else htmlTemplate1)"
  define writes where "writes = (\<lambda>bodyContent fs1 (result :: (error + bool \<times> 'a World) option).
     \<exists>written fs2.
       writeFile S p_file (fillBodyContent S htmlTemplate2 bodyContent) fs1 = (written, fs2)
       \<and> result = Some (Inr (True,
            w\<lparr>trace := trace w @ [CallWriteHtmlFile p_file],
              fileSystem :=
                (if dirExists S resourceFolder fs2 \<and> dirIsEmpty S resourceFolder fs2
                 then rmdir S (cdUp S resourceFolder) resourceFolderName fs2
                 else fs2)\<rparr>)))"
  obtain ba bout where b: "embedBodyResources S p_baseUrl p_bodyContent = Some (ba, bout)"
    using embedBodyResources_returns by blast
  obtain fixed where f: "fixBodyResources S p_baseUrl resourceFolder p_bodyContent (fileSystem w)
      = Some fixed"
    by (meson fixBodyResources_returns)
  have w: "writes bodyContent fs1
      (let htmlTemplate3 = fillBodyContent S htmlTemplate2 bodyContent;
           (written, fs2) = writeFile S p_file htmlTemplate3 fs1;
           fs3 = (if dirExists S resourceFolder fs2 \<and> dirIsEmpty S resourceFolder fs2
                  then rmdir S (cdUp S resourceFolder) resourceFolderName fs2 else fs2)
       in Some (Inr (True, (called (CallWriteHtmlFile p_file) w)\<lparr>fileSystem := fs3\<rparr>)))"
    for bodyContent fs1
    unfolding writes_def Let_def
    by (cases "writeFile S p_file (fillBodyContent S htmlTemplate2 bodyContent) fs1")
      (simp add: called_def)
  have shape: "writeHtmlFile S e p_file p_baseUrl p_headContent p_styleContent p_bodyContent
       p_embedStyles cp ei w =
     (case (if cp then
              (if ei then Some (Inr (bout, fileSystem w))
               else (case fixed of Inl err \<Rightarrow> Some (Inl err)
                     | Inr (altered', bodyContent, fs) \<Rightarrow> Some (Inr (bodyContent, fs))))
            else Some (Inr (p_bodyContent, fileSystem w))) of
        None \<Rightarrow> None
      | Some (Inl err) \<Rightarrow> Some (Inl err)
      | Some (Inr (bodyContent, fs1)) \<Rightarrow>
          (let htmlTemplate3 = fillBodyContent S htmlTemplate2 bodyContent;
               (written, fs2) = writeFile S p_file htmlTemplate3 fs1;
               fs3 = (if dirExists S resourceFolder fs2 \<and> dirIsEmpty S resourceFolder fs2
                      then rmdir S (cdUp S resourceFolder) resourceFolderName fs2 else fs2)
           in Some (Inr (True, (called (CallWriteHtmlFile p_file) w)\<lparr>fileSystem := fs3\<rparr>))))"
    for cp ei
    unfolding writeHtmlFile_def Let_def
    using s b f
    unfolding htmlTemplate2_def htmlTemplate1_def htmlTemplate0_def resourceFolder_def
      resourceFolderName_def title_def
    by (simp add: called_def del: arg.simps split: sum.splits prod.splits)
  have m1: "writes p_bodyContent (fileSystem w)
      (writeHtmlFile S e p_file p_baseUrl p_headContent p_styleContent p_bodyContent
         p_embedStyles False p_embedImages w)"
    unfolding shape using w [of p_bodyContent "fileSystem w"] by simp
  have m2: "writes bout (fileSystem w)
      (writeHtmlFile S e p_file p_baseUrl p_headContent p_styleContent p_bodyContent
         p_embedStyles True True w)"
    unfolding shape using w [of bout "fileSystem w"] by simp
  have m3: "case fixed of
        Inl err \<Rightarrow>
          writeHtmlFile S e p_file p_baseUrl p_headContent p_styleContent p_bodyContent
            p_embedStyles True False w = Some (Inl err)
      | Inr (altered', bodyContent, fs1) \<Rightarrow>
          writes bodyContent fs1
            (writeHtmlFile S e p_file p_baseUrl p_headContent p_styleContent
               p_bodyContent p_embedStyles True False w)"
  proof (cases fixed)
    case (Inl err)
    then show ?thesis unfolding shape by simp
  next
    case (Inr t)
    obtain fa fout ffs where t: "t = (fa, fout, ffs)" by (cases t) auto
    show ?thesis unfolding shape using Inr t w [of fout ffs] by simp
  qed
  from s b f m1 m2 m3 show "\<exists>altered styleContent.
        embedStyleResources S p_styleContent = Some (altered, styleContent)
        \<and> (let title = arg ''%1 - %2'' [completeBaseName S p_file, c_appName S];
               resourceFolderName = completeBaseName S p_file @ ''_files'';
               resourceFolder = concatenateFilePath S (parentDirPath S p_file) resourceFolderName;
               htmlTemplate0 = fillTitle S (m_exportHtmlTemplate e) title;
               htmlTemplate1 =
                 (if p_styleContent \<noteq> [] \<and> p_embedStyles
                  then fillStyleContent S htmlTemplate0 styleContent else htmlTemplate0);
               htmlTemplate2 =
                 (if p_headContent \<noteq> [] then fillHeadContent S htmlTemplate1 p_headContent
                  else htmlTemplate1);
               writes = (\<lambda>bodyContent fs1 result.
                 \<exists>written fs2.
                   writeFile S p_file (fillBodyContent S htmlTemplate2 bodyContent) fs1 = (written, fs2)
                   \<and> result = Some (Inr (True,
                        w\<lparr>trace := trace w @ [CallWriteHtmlFile p_file],
                          fileSystem :=
                            (if dirExists S resourceFolder fs2 \<and> dirIsEmpty S resourceFolder fs2
                             then rmdir S (cdUp S resourceFolder) resourceFolderName fs2
                             else fs2)\<rparr>)))
           in
             writes p_bodyContent (fileSystem w)
               (writeHtmlFile S e p_file p_baseUrl p_headContent p_styleContent p_bodyContent
                  p_embedStyles False p_embedImages w)
             \<and> (\<exists>altered' bodyContent.
                  embedBodyResources S p_baseUrl p_bodyContent = Some (altered', bodyContent)
                  \<and> writes bodyContent (fileSystem w)
                      (writeHtmlFile S e p_file p_baseUrl p_headContent p_styleContent p_bodyContent
                         p_embedStyles True True w))
             \<and> (\<exists>fixed.
                  fixBodyResources S p_baseUrl resourceFolder p_bodyContent (fileSystem w) = Some fixed
                  \<and> (case fixed of
                        Inl err \<Rightarrow>
                          writeHtmlFile S e p_file p_baseUrl p_headContent p_styleContent p_bodyContent
                            p_embedStyles True False w = Some (Inl err)
                      | Inr (altered', bodyContent, fs1) \<Rightarrow>
                          writes bodyContent fs1
                            (writeHtmlFile S e p_file p_baseUrl p_headContent p_styleContent
                               p_bodyContent p_embedStyles True False w))))"
    unfolding Let_def writes_def htmlTemplate2_def htmlTemplate1_def htmlTemplate0_def
      resourceFolder_def resourceFolderName_def title_def
    by blast
qed

theorem writeHtmlFile_styles_counterexample:
  \<open>writeHtmlFile stubServices stubExporter ''/out/n.html'' ''file:///notes/a.md''
      ''<meta>'' ''p{color:red}'' ''<p>hi</p>'' False False False (stubWorld [])
    = Some (Inr (True,
        \<lparr>schedule = [],
         fileSystem = [(''/out/n.html'',
           ''<html><head><title>n - VNote</title><style>%STYLE%</style><meta></head><body><p>hi</p></body></html>'')],
         trace = [CallWriteHtmlFile ''/out/n.html'']\<rparr>))
   \<and> \<not> contains
       ''<html><head><title>n - VNote</title><style>%STYLE%</style><meta></head><body><p>hi</p></body></html>''
       ''p{color:red}''
   \<and> fillStyleContent stubServices (m_exportHtmlTemplate stubExporter) ''p{color:red}''
       = ''<html><head><title>%TITLE%</title><style>p{color:red}</style>%HEAD%</head><body>%BODY%</body></html>''\<close>
  by code_simp

theorem writeHtmlFile_styles_not_embedded_witness:
  \<open>writeHtmlFile stubServices stubExporter ''/out/n.html'' ''file:///notes/a.md''
      ''<meta>'' ''p{color:red}'' ''<p>hi</p>'' False False False (stubWorld [])
    = writeHtmlFile stubServices stubExporter ''/out/n.html'' ''file:///notes/a.md''
      ''<meta>'' [] ''<p>hi</p>'' False False False (stubWorld [])
   \<and> writeHtmlFile stubServices stubExporter ''/out/n.html'' ''file:///notes/a.md''
      ''<meta>'' [] ''<p>hi</p>'' True False False (stubWorld [])
    = writeHtmlFile stubServices stubExporter ''/out/n.html'' ''file:///notes/a.md''
      ''<meta>'' [] ''<p>hi</p>'' False False False (stubWorld [])
   \<and> writeHtmlFile stubServices stubExporter ''/out/n.html'' ''file:///notes/a.md''
      ''<meta>'' [] ''<p>hi</p>'' False False False (stubWorld [])
    = Some (Inr (True,
        \<lparr>schedule = [],
         fileSystem = [(''/out/n.html'',
           ''<html><head><title>n - VNote</title><style>%STYLE%</style><meta></head><body><p>hi</p></body></html>'')],
         trace = [CallWriteHtmlFile ''/out/n.html'']\<rparr>))
   \<and> embedStyleResources stubServices ''p{background:url("file:///a/b.png");}''
    = Some (True, ''p{background:url(\'DATA\');}'')
   \<and> writeHtmlFile stubServices stubExporter ''/out/n.html'' ''file:///notes/a.md''
      ''<meta>'' ''p{background:url("file:///a/b.png");}'' ''<p>hi</p>'' True False False (stubWorld [])
    = Some (Inr (True,
        \<lparr>schedule = [],
         fileSystem = [(''/out/n.html'',
           ''<html><head><title>n - VNote</title><style>p{background:url(\'DATA\');}</style><meta></head><body><p>hi</p></body></html>'')],
         trace = [CallWriteHtmlFile ''/out/n.html'']\<rparr>))\<close>
proof -
  have 1: \<open>writeHtmlFile stubServices stubExporter ''/out/n.html'' ''file:///notes/a.md''
      ''<meta>'' [] ''<p>hi</p>'' False False False (stubWorld [])
    = Some (Inr (True,
        \<lparr>schedule = [],
         fileSystem = [(''/out/n.html'',
           ''<html><head><title>n - VNote</title><style>%STYLE%</style><meta></head><body><p>hi</p></body></html>'')],
         trace = [CallWriteHtmlFile ''/out/n.html'']\<rparr>))\<close>
    by code_simp
  have 2: \<open>embedStyleResources stubServices ''p{background:url("file:///a/b.png");}''
    = Some (True, ''p{background:url(\'DATA\');}'')\<close>
    by code_simp
  have 3: \<open>writeHtmlFile stubServices stubExporter ''/out/n.html'' ''file:///notes/a.md''
      ''<meta>'' ''p{background:url("file:///a/b.png");}'' ''<p>hi</p>'' True False False (stubWorld [])
    = Some (Inr (True,
        \<lparr>schedule = [],
         fileSystem = [(''/out/n.html'',
           ''<html><head><title>n - VNote</title><style>p{background:url(\'DATA\');}</style><meta></head><body><p>hi</p></body></html>'')],
         trace = [CallWriteHtmlFile ''/out/n.html'']\<rparr>))\<close>
    by code_simp
  from 1 2 3 writeHtmlFile_styles_not_embedded [of stubServices stubExporter \<open>''/out/n.html''\<close>
      \<open>''file:///notes/a.md''\<close> \<open>''<meta>''\<close> \<open>''p{color:red}''\<close> \<open>''<p>hi</p>''\<close> False False \<open>stubWorld []\<close>]
  show ?thesis by blast
qed

section \<open>Claims about the folder mode\<close>

lemma find_rev_upt_Some:
  "k \<le> n \<Longrightarrow> P k \<Longrightarrow> (\<And>j. k < j \<Longrightarrow> j \<le> n \<Longrightarrow> \<not> P j)
     \<Longrightarrow> List.find P (rev [0..<Suc n]) = Some k"
proof (induction n)
  case 0
  then show ?case by simp
next
  case (Suc n)
  show ?case
  proof (cases "k = Suc n")
    case True
    with Suc.prems show ?thesis by simp
  next
    case False
    with Suc.prems have "k \<le> n" "\<not> P (Suc n)" by simp_all
    moreover have "List.find P (rev [0..<Suc n]) = Some k"
      using Suc.IH [OF \<open>k \<le> n\<close> Suc.prems(2)] Suc.prems(3) by simp
    ultimately show ?thesis by simp
  qed
qed

lemma lastIndexFrom_append:
  assumes "length a \<le> n" and "n < length (a @ ch # b)"
    and "ch \<notin> set (take (n - length a) b)"
  shows "lastIndexFrom (a @ ch # b) ch n = int (length a)"
proof -
  have "List.find (\<lambda>i. (a @ ch # b) ! i = ch) (rev [0..<Suc n]) = Some (length a)"
  proof (rule find_rev_upt_Some)
    show "length a \<le> n" by fact
    show "(a @ ch # b) ! length a = ch" by simp
    fix j assume j: "length a < j" "j \<le> n"
    then have "(a @ ch # b) ! j = b ! (j - length a - 1)"
      by (simp add: nth_append nth_Cons')
    moreover from j assms(2) have "j - length a - 1 < length (take (n - length a) b)" by simp
    then have "take (n - length a) b ! (j - length a - 1) \<in> set (take (n - length a) b)"
      by (rule nth_mem)
    moreover from j have "take (n - length a) b ! (j - length a - 1) = b ! (j - length a - 1)"
      by simp
    ultimately show "(a @ ch # b) ! j \<noteq> ch"
      using assms(3) by metis
  qed
  then show ?thesis by (simp add: lastIndexFrom_def)
qed

lemma lastIndexOf_last:
  assumes "s \<noteq> []"
  shows "lastIndexOf s ch (- 1) = lastIndexFrom s ch (length s - 1)"
proof -
  from assms have "- 1 + int (length s) = int (length s - 1)"
    by (cases s) simp_all
  then show ?thesis
    unfolding lastIndexOf_def Let_def by (simp del: of_nat_diff)
qed

lemma lastIndexOf_nat:
  assumes "n < length s"
  shows "lastIndexOf s ch (int n) = lastIndexFrom s ch n"
  using assms unfolding lastIndexOf_def Let_def by simp

lemma getResourceRelativePath_two_segments:
  assumes "CHR ''/'' \<notin> set parent" and "CHR ''/'' \<notin> set file"
  shows "getResourceRelativePath (dir @ ''/'' @ parent @ ''/'' @ file)
           = Inr (''./'' @ parent @ ''/'' @ file)"
proof -
  let ?p = "dir @ ''/'' @ parent @ ''/'' @ file"
  let ?k1 = "length dir + 1 + length parent"
  have p1: "?p = (dir @ ''/'' @ parent) @ CHR ''/'' # file" by simp
  have p0: "?p = dir @ CHR ''/'' # (parent @ ''/'' @ file)" by simp
  have "lastIndexFrom ?p (CHR ''/'') (length ?p - 1) = int (length (dir @ ''/'' @ parent))"
    unfolding p1 by (rule lastIndexFrom_append) (use assms in simp_all)
  moreover have "lastIndexOf ?p (CHR ''/'') (- 1) = lastIndexFrom ?p (CHR ''/'') (length ?p - 1)"
    by (rule lastIndexOf_last) simp
  ultimately have idx: "lastIndexOf ?p (CHR ''/'') (- 1) = int ?k1"
    by simp
  have "lastIndexFrom ?p (CHR ''/'') (?k1 - 1) = int (length dir)"
    unfolding p0
  proof (rule lastIndexFrom_append)
    show "length dir \<le> ?k1 - 1" by simp
    show "?k1 - 1 < length (dir @ CHR ''/'' # parent @ ''/'' @ file)" by simp
    show "CHR ''/'' \<notin> set (take (?k1 - 1 - length dir) (parent @ ''/'' @ file))"
      using assms(1) by simp
  qed
  moreover have "lastIndexOf ?p (CHR ''/'') (int (?k1 - 1)) = lastIndexFrom ?p (CHR ''/'') (?k1 - 1)"
    by (rule lastIndexOf_nat) simp
  moreover have "int ?k1 - 1 = int (?k1 - 1)" by simp
  ultimately have idx2: "lastIndexOf ?p (CHR ''/'') (int ?k1 - 1) = int (length dir)"
    by simp
  have "mid ?p (int (length dir)) = ''/'' @ parent @ ''/'' @ file"
    by (simp add: mid_def)
  with idx idx2 show ?thesis
    unfolding getResourceRelativePath_def Let_def by simp
qed

text \<open>
  C8, as the code has it. \<^verbatim>\<open>getResourceRelativePath\<close> keeps the path from its
  second-to-last slash on: the rewritten \<^verbatim>\<open>src\<close> is \<^verbatim>\<open>./\<close>, the parent segment, a slash and
  the file name of the copied file; the segments before the parent segment (the grandparent
  segment among them) are dropped. For every image tag the scan finds whose copy succeeds with
  such a path, the tag is replaced by one with this \<^verbatim>\<open>src\<close> and the same other attributes.
\<close>

theorem folder_mode_src:
  assumes "CHR ''/'' \<notin> set parent" and "CHR ''/'' \<notin> set file"
    and "indexOf html imgRegExp pos = Some (idx, reg)" and "cap reg 2 \<noteq> []"
    and "copyResource S (resolved S base (cap reg 2)) folder fs
           = (dir @ ''/'' @ parent @ ''/'' @ file, fs')"
  shows \<open>getResourceRelativePath (dir @ ''/'' @ parent @ ''/'' @ file)
           = Inr (''./'' @ parent @ ''/'' @ file)
    \<and> fixBodyStep S base folder pos html a fs
        = Inr (Continue
            (idx + length (''<img '' @ cap reg 1 @ ''src="./'' @ parent @ ''/'' @ file @ ''"''
                             @ cap reg 3 @ ''>''),
             replace html idx (matchedLength reg)
               (''<img '' @ cap reg 1 @ ''src="./'' @ parent @ ''/'' @ file @ ''"'' @ cap reg 3 @ ''>''),
             True, fs'))\<close>
proof -
  have p: "getResourceRelativePath (dir @ ''/'' @ parent @ ''/'' @ file)
           = Inr (''./'' @ parent @ ''/'' @ file)"
    using assms(1,2) by (rule getResourceRelativePath_two_segments)
  have t: "dir @ ''/'' @ parent @ ''/'' @ file \<noteq> []" by simp
  have \<open>fixBodyStep S base folder pos html a fs
        = Inr (Continue
            (idx + length (arg ''<img %1src="%2"%3>'' [cap reg 1, ''./'' @ parent @ ''/'' @ file, cap reg 3]),
             replace html idx (matchedLength reg)
               (arg ''<img %1src="%2"%3>'' [cap reg 1, ''./'' @ parent @ ''/'' @ file, cap reg 3]),
             True, fs'))\<close>
    unfolding fixBodyStep_def Let_def assms(3,5) option.case prod.case p sum.case
    using assms(4) t by (simp only: if_False)
  then show ?thesis
    unfolding arg_img_fix using p by simp
qed

theorem folder_mode_src_counterexample:
  \<open>getResourceRelativePath ''/out/n_files/sub/x.png'' = Inr ''./sub/x.png''
   \<and> ''./sub/x.png'' \<noteq> ''./n_files/sub/x.png''
   \<and> copyResource stubServices ''file:///notes/img/x.png'' ''/out/n_files'' []
       = (''/out/n_files/sub/x.png'', [(''/out/n_files/sub/x.png'', ''file:///notes/img/x.png'')])
   \<and> fixBodyResources stubServices ''file:///notes/a.md'' ''/out/n_files'' ''<img src="img/x.png">'' []
       = Some (Inr (True, ''<img src="./sub/x.png">'',
           [(''/out/n_files/sub/x.png'', ''file:///notes/img/x.png'')]))\<close>
  by code_simp

theorem folder_mode_src_witness:
  \<open>CHR ''/'' \<notin> set ''sub'' \<and> CHR ''/'' \<notin> set ''x.png''
   \<and> indexOf ''<img src="img/x.png">'' imgRegExp 0
       = Some (0, \<lparr>matchedLength = 21,
                   capturedTexts = [''<img src="img/x.png">'', [], ''img/x.png'', []]\<rparr>)
   \<and> copyResource stubServices (resolved stubServices ''file:///notes/a.md'' ''img/x.png'')
         ''/out/n_files'' []
       = (''/out/n_files/sub/x.png'', [(''/out/n_files/sub/x.png'', ''file:///notes/img/x.png'')])
   \<and> getResourceRelativePath ''/out/n_files/sub/x.png'' = Inr ''./sub/x.png''
   \<and> fixBodyStep stubServices ''file:///notes/a.md'' ''/out/n_files'' 0 ''<img src="img/x.png">'' False []
       = Inr (Continue (23, ''<img src="./sub/x.png">'', True,
           [(''/out/n_files/sub/x.png'', ''file:///notes/img/x.png'')]))\<close>
proof -
  have 1: \<open>CHR ''/'' \<notin> set ''sub''\<close> and 2: \<open>CHR ''/'' \<notin> set ''x.png''\<close>
    by simp_all
  have 3: \<open>indexOf ''<img src="img/x.png">'' imgRegExp 0
       = Some (0, \<lparr>matchedLength = 21,
                   capturedTexts = [''<img src="img/x.png">'', [], ''img/x.png'', []]\<rparr>)\<close>
    by code_simp
  have 4: \<open>cap \<lparr>matchedLength = 21,
                capturedTexts = [''<img src="img/x.png">'', [], ''img/x.png'', []]\<rparr> 2 \<noteq> []\<close>
    by (simp add: cap_def)
  have 5: \<open>copyResource stubServices (resolved stubServices ''file:///notes/a.md''
          (cap \<lparr>matchedLength = 21,
                capturedTexts = [''<img src="img/x.png">'', [], ''img/x.png'', []]\<rparr> 2))
         ''/out/n_files'' []
       = (''/out/n_files'' @ ''/'' @ ''sub'' @ ''/'' @ ''x.png'',
          [(''/out/n_files/sub/x.png'', ''file:///notes/img/x.png'')])\<close>
    by (simp add: cap_def stubServices_def)
  from folder_mode_src [OF 1 2 3 4 5, of False] 3 5 1 2
  show ?thesis
    by (simp add: cap_def replace_def)
qed

section \<open>Claims about the waits\<close>

lemma deliverAll_Nil [simp]: "deliverAll e [] = e"
  by (simp add: deliverAll_def)

lemma deliverAll_Cons [simp]: "deliverAll e (ev # evs) = deliverAll (deliver e ev) evs"
  by (simp add: deliverAll_def)

lemma deliverAll_append: "deliverAll e (xs @ ys) = deliverAll (deliverAll e xs) ys"
  by (simp add: deliverAll_def)

lemma askedToStop_deliver:
  "m_askedToStop (deliver e ev) \<longleftrightarrow> m_askedToStop e \<or> ev = StopCall"
  by (cases ev) (simp_all add: onLoadFinished_def onWorkFinished_def stop_def)

lemma askedToStop_deliverAll:
  "m_askedToStop (deliverAll e evs) \<longleftrightarrow> m_askedToStop e \<or> StopCall \<in> set evs"
  by (induction evs arbitrary: e) (auto simp: askedToStop_deliver)

lemma deliverAllHtml_disconnected:
  "deliverAllHtml S opt out base evs (e, w, st, False) = Some (Inr (deliverAll e evs, w, st, False))"
proof (induction evs arbitrary: e)
  case Nil
  show ?case by simp
next
  case (Cons ev evs)
  show ?case by (cases ev) (simp_all add: Cons.IH)
qed

lemma deliverAllHtml_no_content:
  assumes "list_all (\<lambda>ev. \<not> isContentReady ev) evs"
  shows "deliverAllHtml S opt out base evs (e, w, st, c) = Some (Inr (deliverAll e evs, w, st, c))"
  using assms
proof (induction evs arbitrary: e)
  case Nil
  show ?case by simp
next
  case (Cons ev evs)
  then show ?case by (cases ev) simp_all
qed

lemma deliverAllHtml_append:
  assumes "deliverAllHtml S opt out base xs st = Some (Inr st')"
  shows "deliverAllHtml S opt out base (xs @ ys) st = deliverAllHtml S opt out base ys st'"
  using assms
proof (induction xs arbitrary: st)
  case Nil
  then show ?case by simp
next
  case (Cons x xs)
  then show ?case
    by (auto split: option.splits sum.splits)
qed

lemma deliverAllHtml_empty_body:
  assumes "list_all (\<lambda>ev. \<not> isContentReady ev) evs1"
  shows "deliverAllHtml S opt out base (evs1 @ ContentReadySignal h s [] # evs2) (e, w, st, True)
           = Some (Inr (deliverAll e (evs1 @ ContentReadySignal h s [] # evs2), w, - 1, False))"
proof -
  have "deliverAllHtml S opt out base (ContentReadySignal h s [] # evs2) (deliverAll e evs1, w, st, True)
      = Some (Inr (deliverAll (deliverAll e evs1) evs2, w, - 1, False))"
    by (simp add: onContentReady_def deliverAllHtml_disconnected)
  then show ?thesis
    using deliverAllHtml_append [OF deliverAllHtml_no_content [OF assms, of S opt out base e w st True]]
    by (simp add: deliverAll_append)
qed

lemma sleepWait_Cons:
  assumes "schedule w = evs # rest"
  shows "sleepWait ms w = (evs, w\<lparr>schedule := rest, trace := trace w @ [CallSleepWait ms]\<rparr>)"
  using assms by (simp add: sleepWait_def called_def)

lemma waitContentReady_empty_body:
  assumes "schedule w = pre @ (evs1 @ ContentReadySignal h s [] # evs2) # rest"
    and "list_all (\<lambda>ev. \<not> isContentReady ev) (concat pre @ evs1)"
  shows "\<exists>e' w' st k. waitContentReady S opt out base e w 0 True = Some (Inr (e', w', st))
           \<and> st \<noteq> 1 \<and> fileSystem w' = fileSystem w
           \<and> trace w' = trace w @ replicate k (CallSleepWait 100)"
  using assms
proof (induction pre arbitrary: e w)
  case Nil
  let ?batch = "evs1 @ ContentReadySignal h s [] # evs2"
  let ?w1 = "w\<lparr>schedule := rest, trace := trace w @ [CallSleepWait 100]\<rparr>"
  let ?e2 = "deliverAll e ?batch"
  from Nil have sw: "sleepWait 100 w = (?batch, ?w1)"
    by (simp add: sleepWait_Cons)
  from Nil have d: "deliverAllHtml S opt out base ?batch (e, ?w1, 0, True)
      = Some (Inr (?e2, ?w1, - 1, False))"
    by (simp add: deliverAllHtml_empty_body)
  have after: "waitContentReady S opt out base ?e2 ?w1 (- 1) False = Some (Inr (?e2, ?w1, - 1))"
    by (subst waitContentReady.simps) simp
  have "waitContentReady S opt out base e w 0 True = Some (Inr (?e2, ?w1, - 1))"
    by (subst waitContentReady.simps) (simp add: sw d after)
  moreover have "trace ?w1 = trace w @ replicate 1 (CallSleepWait 100)" by simp
  moreover have "fileSystem ?w1 = fileSystem w" by simp
  ultimately show ?case by (metis (no_types) one_neq_neg_one)
next
  case (Cons b bs)
  let ?w1 = "w\<lparr>schedule := bs @ (evs1 @ ContentReadySignal h s [] # evs2) # rest,
                trace := trace w @ [CallSleepWait 100]\<rparr>"
  let ?e2 = "deliverAll e b"
  from Cons.prems have sw: "sleepWait 100 w = (b, ?w1)"
    by (simp add: sleepWait_Cons)
  from Cons.prems have "list_all (\<lambda>ev. \<not> isContentReady ev) b" by simp
  then have d: "deliverAllHtml S opt out base b (e, ?w1, 0, True) = Some (Inr (?e2, ?w1, 0, True))"
    by (rule deliverAllHtml_no_content)
  show ?case
  proof (cases "m_askedToStop ?e2")
    case True
    have "waitContentReady S opt out base e w 0 True = Some (Inr (?e2, ?w1, 0))"
      by (subst waitContentReady.simps) (simp add: sw d True)
    moreover have "trace ?w1 = trace w @ replicate 1 (CallSleepWait 100)" by simp
    moreover have "fileSystem ?w1 = fileSystem w" by simp
    ultimately show ?thesis by (metis (no_types) zero_neq_one)
  next
    case False
    have "schedule ?w1 = bs @ (evs1 @ ContentReadySignal h s [] # evs2) # rest" by simp
    moreover from Cons.prems have "list_all (\<lambda>ev. \<not> isContentReady ev) (concat bs @ evs1)"
      by simp
    ultimately obtain e' w' st k where
      r: "waitContentReady S opt out base ?e2 ?w1 0 True = Some (Inr (e', w', st))"
        "st \<noteq> 1" "fileSystem w' = fileSystem ?w1"
        "trace w' = trace ?w1 @ replicate k (CallSleepWait 100)"
      using Cons.IH [of ?w1 ?e2] by blast
    have "waitContentReady S opt out base e w 0 True = Some (Inr (e', w', st))"
      by (subst waitContentReady.simps) (simp add: sw d False r(1))
    moreover from r(4) have "trace w' = trace w @ replicate (Suc k) (CallSleepWait 100)"
      by simp
    moreover from r(3) have "fileSystem w' = fileSystem w" by simp
    ultimately show ?thesis using r(2) by blast
  qed
qed

text \<open>
  C5. When the first \<^verbatim>\<open>contentReady\<close> signal that reaches \<^verbatim>\<open>doExportHtml\<close> carries an empty
  body, then for every head and style content, every option and every other event around it,
  \<^verbatim>\<open>doExportHtml\<close> returns false, and \<^verbatim>\<open>writeHtmlFile\<close> is not called: the calls made are
  the request to save the content and the waits, and the file system is unchanged.
\<close>

theorem doExportHtml_empty_body:
  assumes "schedule w = pre @ (evs1 @ ContentReadySignal h s [] # evs2) # rest"
    and "list_all (\<lambda>ev. \<not> isContentReady ev) (concat pre @ evs1)"
  shows "\<exists>e' w' k. doExportHtml S opt out base e w = Some (Inr (False, e', w'))
           \<and> fileSystem w' = fileSystem w
           \<and> trace w' = trace w @ [CallDoExportHtml, CallSaveContent] @ replicate k (CallSleepWait 100)
           \<and> (\<forall>f. CallWriteHtmlFile f \<notin> set (drop (length (trace w)) (trace w')))"
proof -
  let ?w0 = "called CallSaveContent (called CallDoExportHtml w)"
  from assms(1) have "schedule ?w0 = pre @ (evs1 @ ContentReadySignal h s [] # evs2) # rest"
    by (simp add: called_def)
  from waitContentReady_empty_body [OF this assms(2), of S opt out base e]
  obtain e' w' st k where
    r: "waitContentReady S opt out base e ?w0 0 True = Some (Inr (e', w', st))"
      "st \<noteq> 1" "fileSystem w' = fileSystem ?w0"
      "trace w' = trace ?w0 @ replicate k (CallSleepWait 100)"
    by blast
  from r(1,2) have "doExportHtml S opt out base e w = Some (Inr (False, e', w'))"
    by (simp add: doExportHtml_def)
  moreover from r(3) have "fileSystem w' = fileSystem w"
    by (simp add: called_def)
  moreover from r(4) have t: "trace w' = trace w @ [CallDoExportHtml, CallSaveContent]
      @ replicate k (CallSleepWait 100)"
    by (simp add: called_def)
  moreover from t have "\<forall>f. CallWriteHtmlFile f \<notin> set (drop (length (trace w)) (trace w'))"
    by auto
  ultimately show ?thesis by blast
qed

theorem doExportHtml_empty_body_witness:
  \<open>doExportHtml stubServices
      \<lparr>m_embedStyles = True, m_completePage = True, m_embedImages = True,
       m_useMimeHtmlFormat = False, m_addOutlinePanel = False\<rparr>
      ''/out/n.html'' ''file:///notes/a.md'' stubExporter
      (stubWorld [[LoadFinishedSignal], [ContentReadySignal ''<meta>'' ''p{color:red}'' []]])
    = Some (Inr (False, onLoadFinished stubExporter,
        \<lparr>schedule = [], fileSystem = [],
         trace = [CallDoExportHtml, CallSaveContent, CallSleepWait 100, CallSleepWait 100]\<rparr>))
   \<and> doExportHtml stubServices
      \<lparr>m_embedStyles = True, m_completePage = True, m_embedImages = True,
       m_useMimeHtmlFormat = False, m_addOutlinePanel = False\<rparr>
      ''/out/n.html'' ''file:///notes/a.md'' stubExporter
      (stubWorld [[LoadFinishedSignal], [ContentReadySignal ''<meta>'' ''p{color:red}'' ''<p>hi</p>'']])
    = Some (Inr (True, onLoadFinished stubExporter,
        \<lparr>schedule = [],
         fileSystem = [(''/out/n.html'',
           ''<html><head><title>n - VNote</title><style>p{color:red}</style><meta></head><body><p>hi</p></body></html>'')],
         trace = [CallDoExportHtml, CallSaveContent, CallSleepWait 100, CallSleepWait 100,
                  CallWriteHtmlFile ''/out/n.html'']\<rparr>))\<close>
proof -
  have 1: \<open>schedule (stubWorld [[LoadFinishedSignal], [ContentReadySignal ''<meta>'' ''p{color:red}'' []]])
      = [[LoadFinishedSignal]] @ ([] @ ContentReadySignal ''<meta>'' ''p{color:red}'' [] # []) # []\<close>
    by (simp add: stubWorld_def)
  have 2: \<open>list_all (\<lambda>ev. \<not> isContentReady ev) (concat [[LoadFinishedSignal]] @ [])\<close>
    by simp
  have 3: \<open>doExportHtml stubServices
      \<lparr>m_embedStyles = True, m_completePage = True, m_embedImages = True,
       m_useMimeHtmlFormat = False, m_addOutlinePanel = False\<rparr>
      ''/out/n.html'' ''file:///notes/a.md'' stubExporter
      (stubWorld [[LoadFinishedSignal], [ContentReadySignal ''<meta>'' ''p{color:red}'' []]])
    = Some (Inr (False, onLoadFinished stubExporter,
        \<lparr>schedule = [], fileSystem = [],
         trace = [CallDoExportHtml, CallSaveContent, CallSleepWait 100, CallSleepWait 100]\<rparr>))\<close>
    by code_simp
  have 4: \<open>doExportHtml stubServices
      \<lparr>m_embedStyles = True, m_completePage = True, m_embedImages = True,
       m_useMimeHtmlFormat = False, m_addOutlinePanel = False\<rparr>
      ''/out/n.html'' ''file:///notes/a.md'' stubExporter
      (stubWorld [[LoadFinishedSignal], [ContentReadySignal ''<meta>'' ''p{color:red}'' ''<p>hi</p>'']])
    = Some (Inr (True, onLoadFinished stubExporter,
        \<lparr>schedule = [],
         fileSystem = [(''/out/n.html'',
           ''<html><head><title>n - VNote</title><style>p{color:red}</style><meta></head><body><p>hi</p></body></html>'')],
         trace = [CallDoExportHtml, CallSaveContent, CallSleepWait 100, CallSleepWait 100,
                  CallWriteHtmlFile ''/out/n.html'']\<rparr>))\<close>
    by code_simp
  from doExportHtml_empty_body [OF 1 2, of stubServices
      \<open>\<lparr>m_embedStyles = True, m_completePage = True, m_embedImages = True,
       m_useMimeHtmlFormat = False, m_addOutlinePanel = False\<rparr>\<close>
      \<open>''/out/n.html''\<close> \<open>''file:///notes/a.md''\<close> stubExporter] 3 4
  show ?thesis by blast
qed

lemma ready_deliverAll_mono:
  assumes "\<forall>n. bit (m_webViewStates e) n \<longrightarrow> n < 2" and "isWebViewReady e"
  shows "isWebViewReady (deliverAll e evs)"
proof -
  have r: "bit (m_webViewStates e) n \<longleftrightarrow> n < 2" for n
    using assms(2) by (simp add: ready_bits)
  have "bit (m_webViewStates (deliverAll e evs)) n \<longleftrightarrow> n < 2" for n
    unfolding bit_deliverAll r by auto
  then show ?thesis by (simp add: ready_bits)
qed

lemma bits_deliverAll_below:
  assumes "\<forall>n. bit (m_webViewStates e) n \<longrightarrow> n < 2"
  shows "\<forall>n. bit (m_webViewStates (deliverAll e evs)) n \<longrightarrow> n < 2"
proof (intro allI impI)
  fix n
  assume "bit (m_webViewStates (deliverAll e evs)) n"
  then consider "bit (m_webViewStates e) n" | "n = 0" | "n = 1"
    unfolding bit_deliverAll by blast
  then show "n < 2"
    using assms by cases simp_all
qed

lemma not_failed_below:
  assumes "\<forall>n. bit (m_webViewStates e) n \<longrightarrow> n < 2"
  shows "\<not> isWebViewFailed e"
proof -
  from assms have "\<not> bit (m_webViewStates e) 2" by (metis less_irrefl)
  then have "\<not> hasFlag (m_webViewStates e) Failed" by (simp add: hasFlag_Failed)
  then show ?thesis by (simp add: isWebViewFailed_def hasFlag_def)
qed

lemma ready_after_Started:
  assumes "m_webViewStates e = Started"
  shows "isWebViewReady (deliverAll e evs)
    \<longleftrightarrow> LoadFinishedSignal \<in> set evs \<and> WorkFinishedSignal \<in> set evs"
proof -
  have b: "bit (m_webViewStates (deliverAll e evs)) n \<longleftrightarrow>
      (LoadFinishedSignal \<in> set evs \<and> n = 0) \<or> (WorkFinishedSignal \<in> set evs \<and> n = 1)" for n
    unfolding bit_deliverAll by (simp add: assms Started_def)
  show ?thesis
  proof
    assume "isWebViewReady (deliverAll e evs)"
    then have "bit (m_webViewStates (deliverAll e evs)) 0" "bit (m_webViewStates (deliverAll e evs)) 1"
      unfolding ready_bits by simp_all
    then show "LoadFinishedSignal \<in> set evs \<and> WorkFinishedSignal \<in> set evs"
      unfolding b by simp
  next
    assume "LoadFinishedSignal \<in> set evs \<and> WorkFinishedSignal \<in> set evs"
    then show "isWebViewReady (deliverAll e evs)"
      unfolding ready_bits b by auto
  qed
qed

lemma waitWebViewReady_stop:
  assumes "\<forall>n. bit (m_webViewStates e) n \<longrightarrow> n < 2" and "\<not> m_askedToStop e"
    and "schedule w = pre @ batch # rest" and "StopCall \<notin> set (concat pre)"
    and "\<not> isWebViewReady (deliverAll e (concat pre))" and "StopCall \<in> set batch"
  shows "waitWebViewReady e w
    = Some (False, deliverAll e (concat pre @ batch),
        w\<lparr>schedule := rest, trace := trace w @ replicate (Suc (length pre)) (CallSleepWait 100)\<rparr>)"
  using assms
proof (induction pre arbitrary: e w)
  case Nil
  from Nil.prems have nr: "\<not> isWebViewReady e" by simp
  from Nil.prems have sw: "sleepWait 100 w
      = (batch, w\<lparr>schedule := rest, trace := trace w @ [CallSleepWait 100]\<rparr>)"
    by (simp add: sleepWait_Cons)
  from Nil.prems have "m_askedToStop (deliverAll e batch)"
    by (simp add: askedToStop_deliverAll)
  then show ?case
    by (subst waitWebViewReady.simps) (simp add: nr sw)
next
  case (Cons b bs)
  let ?w1 = "w\<lparr>schedule := bs @ batch # rest, trace := trace w @ [CallSleepWait 100]\<rparr>"
  let ?e1 = "deliverAll e b"
  have nr: "\<not> isWebViewReady e"
    using ready_deliverAll_mono [OF Cons.prems(1)] Cons.prems(5) by blast
  from Cons.prems have sw: "sleepWait 100 w = (b, ?w1)"
    by (simp add: sleepWait_Cons)
  from Cons.prems have ns: "\<not> m_askedToStop ?e1"
    by (simp add: askedToStop_deliverAll)
  have below: "\<forall>n. bit (m_webViewStates ?e1) n \<longrightarrow> n < 2"
    using Cons.prems(1) by (rule bits_deliverAll_below)
  then have nf: "\<not> isWebViewFailed ?e1" by (rule not_failed_below)
  have "waitWebViewReady ?e1 ?w1
    = Some (False, deliverAll ?e1 (concat bs @ batch),
        ?w1\<lparr>schedule := rest, trace := trace ?w1 @ replicate (Suc (length bs)) (CallSleepWait 100)\<rparr>)"
  proof (rule Cons.IH [OF below ns])
    show "schedule ?w1 = bs @ batch # rest" by simp
    show "StopCall \<notin> set (concat bs)" using Cons.prems(4) by simp
    show "\<not> isWebViewReady (deliverAll ?e1 (concat bs))"
      using Cons.prems(5) by (simp add: deliverAll_append)
    show "StopCall \<in> set batch" by fact
  qed
  then have "waitWebViewReady ?e1 ?w1
    = Some (False, deliverAll e (concat (b # bs) @ batch),
        w\<lparr>schedule := rest, trace := trace w @ replicate (Suc (length (b # bs))) (CallSleepWait 100)\<rparr>)"
    by (simp add: deliverAll_append)
  then show ?case
    by (subst waitWebViewReady.simps) (simp add: nr sw ns nf)
qed

text \<open>
  C3. Let \<^verbatim>\<open>stop()\<close> be called during a wait of the readiness loop of \<^verbatim>\<open>doExport\<close>: the
  waits before it (\<^verbatim>\<open>pre\<close>) brought no call of \<^verbatim>\<open>stop()\<close> and not both signals, the wait
  \<^verbatim>\<open>batch\<close> brings the call, whatever else it brings. Then \<^verbatim>\<open>doExport\<close> returns false at
  the check after that very wait: the calls it made are \<^verbatim>\<open>setHtml\<close>, \<^verbatim>\<open>setText\<close> and one
  \<^verbatim>\<open>sleepWait(100)\<close> for each wait up to and including the one with the call, so neither
  the settle delay nor \<^verbatim>\<open>doExportHtml\<close> was called; the events after it are still queued,
  no export is ongoing and the file system is unchanged.
\<close>

theorem doExport_stop_while_waiting:
  assumes "isMarkdown p_file" and "\<not> m_exportOngoing e"
    and "schedule w = pre @ batch # rest" and "StopCall \<notin> set (concat pre)"
    and "\<not> (LoadFinishedSignal \<in> set (concat pre) \<and> WorkFinishedSignal \<in> set (concat pre))"
    and "StopCall \<in> set batch"
  shows "\<exists>e' w'. doExport S p_option p_file p_outputFile e w = Some (Inr (False, e', w'))
    \<and> m_askedToStop e' \<and> \<not> m_exportOngoing e'
    \<and> schedule w' = rest \<and> fileSystem w' = fileSystem w
    \<and> trace w' = trace w
         @ [CallSetHtml (m_htmlTemplate e) (pathToUrl S (getContentPath p_file)),
            CallSetText (read p_file)]
         @ replicate (length pre + 1) (CallSleepWait 100)
    \<and> CallDoExportHtml \<notin> set (drop (length (trace w)) (trace w'))"
proof -
  let ?e1 = "e\<lparr>m_askedToStop := False, m_exportOngoing := True, m_webViewStates := Started\<rparr>"
  let ?w1 = "called (CallSetText (read p_file))
      (called (CallSetHtml (m_htmlTemplate e) (pathToUrl S (getContentPath p_file))) w)"
  let ?e2 = "deliverAll ?e1 (concat pre @ batch)"
  let ?w2 = "?w1\<lparr>schedule := rest,
      trace := trace ?w1 @ replicate (Suc (length pre)) (CallSleepWait 100)\<rparr>"
  have below: "\<forall>n. bit (m_webViewStates ?e1) n \<longrightarrow> n < 2"
    by (simp add: Started_def)
  have "m_webViewStates ?e1 = Started" by simp
  from ready_after_Started [OF this, of "concat pre"] assms(5)
  have nr: "\<not> isWebViewReady (deliverAll ?e1 (concat pre))" by blast
  have w: "waitWebViewReady ?e1 ?w1 = Some (False, ?e2, ?w2)"
  proof (rule waitWebViewReady_stop [OF below _ _ assms(4) nr assms(6)])
    show "\<not> m_askedToStop ?e1" by simp
    show "schedule ?w1 = pre @ batch # rest" using assms(3) by (simp add: called_def)
  qed
  have "doExport S p_option p_file p_outputFile e w
      = Some (Inr (False, ?e2\<lparr>m_exportOngoing := False\<rparr>, ?w2))"
    unfolding doExport_def Let_def using assms(1,2) w by simp
  moreover have "m_askedToStop (?e2\<lparr>m_exportOngoing := False\<rparr>)"
    using assms(6) by (simp add: askedToStop_deliverAll)
  moreover have t: "trace ?w2 = trace w
         @ [CallSetHtml (m_htmlTemplate e) (pathToUrl S (getContentPath p_file)),
            CallSetText (read p_file)]
         @ replicate (length pre + 1) (CallSleepWait 100)"
    by (simp add: called_def)
  moreover have "CallDoExportHtml \<notin> set (drop (length (trace w)) (trace ?w2))"
    unfolding t by auto
  moreover have "schedule ?w2 = rest" "fileSystem ?w2 = fileSystem w"
    by (simp_all add: called_def)
  ultimately show ?thesis by auto
qed

theorem doExport_stop_while_waiting_witness:
  \<open>doExport stubServices
      \<lparr>m_targetFormat = HTML,
       m_htmlOption = Some \<lparr>m_embedStyles = True, m_completePage = True, m_embedImages = True,
         m_useMimeHtmlFormat = False, m_addOutlinePanel = False\<rparr>\<rparr>
      \<lparr>isMarkdown = True, getContentPath = ''/notes/a.md'', getFilePath = ''/notes/a.md'',
       read = ''# hi''\<rparr>
      ''/out/n.html'' stubExporter
      (stubWorld [[LoadFinishedSignal], [WorkFinishedSignal, StopCall],
         [ContentReadySignal ''<meta>'' ''p{}'' ''<p>hi</p>'']])
    = Some (Inr (False,
        stubExporter\<lparr>m_askedToStop := True, m_webViewStates := LoadFinished OR WorkFinished\<rparr>,
        \<lparr>schedule = [[ContentReadySignal ''<meta>'' ''p{}'' ''<p>hi</p>'']],
         fileSystem = [],
         trace = [CallSetHtml ''<html>%BODY%</html>'' ''file:///notes/a.md'', CallSetText ''# hi'',
                  CallSleepWait 100, CallSleepWait 100]\<rparr>))\<close>
proof -
  have 1: \<open>isMarkdown \<lparr>isMarkdown = True, getContentPath = ''/notes/a.md'',
      getFilePath = ''/notes/a.md'', read = ''# hi''\<rparr>\<close>
    by simp
  have 2: "\<not> m_exportOngoing stubExporter"
    by (simp add: stubExporter_def)
  have 3: \<open>schedule (stubWorld [[LoadFinishedSignal], [WorkFinishedSignal, StopCall],
         [ContentReadySignal ''<meta>'' ''p{}'' ''<p>hi</p>'']])
      = [[LoadFinishedSignal]] @ [WorkFinishedSignal, StopCall]
          # [[ContentReadySignal ''<meta>'' ''p{}'' ''<p>hi</p>'']]\<close>
    by (simp add: stubWorld_def)
  have 4: "StopCall \<notin> set (concat [[LoadFinishedSignal]])"
    by simp
  have 5: "\<not> (LoadFinishedSignal \<in> set (concat [[LoadFinishedSignal]])
      \<and> WorkFinishedSignal \<in> set (concat [[LoadFinishedSignal]]))"
    by simp
  have 6: "StopCall \<in> set [WorkFinishedSignal, StopCall]"
    by simp
  have 7: \<open>doExport stubServices
      \<lparr>m_targetFormat = HTML,
       m_htmlOption = Some \<lparr>m_embedStyles = True, m_completePage = True, m_embedImages = True,
         m_useMimeHtmlFormat = False, m_addOutlinePanel = False\<rparr>\<rparr>
      \<lparr>isMarkdown = True, getContentPath = ''/notes/a.md'', getFilePath = ''/notes/a.md'',
       read = ''# hi''\<rparr>
      ''/out/n.html'' stubExporter
      (stubWorld [[LoadFinishedSignal], [WorkFinishedSignal, StopCall],
         [ContentReadySignal ''<meta>'' ''p{}'' ''<p>hi</p>'']])
    = Some (Inr (False,
        stubExporter\<lparr>m_askedToStop := True, m_webViewStates := LoadFinished OR WorkFinished\<rparr>,
        \<lparr>schedule = [[ContentReadySignal ''<meta>'' ''p{}'' ''<p>hi</p>'']],
         fileSystem = [],
         trace = [CallSetHtml ''<html>%BODY%</html>'' ''file:///notes/a.md'', CallSetText ''# hi'',
                  CallSleepWait 100, CallSleepWait 100]\<rparr>))\<close>
    by code_simp
  from doExport_stop_while_waiting [OF 1 2 3 4 5 6, of stubServices
      \<open>\<lparr>m_targetFormat = HTML,
       m_htmlOption = Some \<lparr>m_embedStyles = True, m_completePage = True, m_embedImages = True,
         m_useMimeHtmlFormat = False, m_addOutlinePanel = False\<rparr>\<rparr>\<close> \<open>''/out/n.html''\<close>] 7
  show ?thesis by blast
qed

section \<open>Claims about the style scan\<close>

lemma startsWith_drop:
  assumes "startsWith s p" and "length p = n"
  shows "s = p @ drop n s"
  using startsWith_append [OF assms(1)] assms(2) by simp

lemma styleRegExp_shape:
  assumes "styleRegExp s i = Some m"
  shows \<open>\<exists>sch body rest. (sch = ''file'' \<or> sch = ''qrc'') \<and> body \<noteq> []
      \<and> (\<forall>c\<in>set body. c \<noteq> CHR ''"'' \<and> c \<noteq> CHR '')'')
      \<and> drop i s = ''url("'' @ sch @ '':'' @ body @ ''");'' @ rest
      \<and> matchedLength m = 9 + length sch + length body
      \<and> capturedTexts m = [''url("'' @ sch @ '':'' @ body @ ''");'', sch @ '':'' @ body, sch]
      \<and> wordBoundary s i\<close>
proof -
  define r where "r = drop i s"
  define r1 where "r1 = drop 5 r"
  define sch where "sch = (if startsWith r1 ''file:'' then ''file''
                           else if startsWith r1 ''qrc:'' then ''qrc'' else [])"
  define r2 where "r2 = drop (length sch + 1) r1"
  define body where \<open>body = takeWhile (\<lambda>c. c \<noteq> CHR ''"'' \<and> c \<noteq> CHR '')'') r2\<close>
  from assms have wb: "wordBoundary s i" and u: \<open>startsWith r ''url("''\<close>
    and sn: "sch \<noteq> []" and bn: "body \<noteq> []"
    and e: \<open>startsWith (drop (length body) r2) ''");''\<close>
    and m: "m = \<lparr>matchedLength = 5 + (length sch + 1 + length body) + 3,
                  capturedTexts = [take (5 + (length sch + 1 + length body) + 3) r,
                                   sch @ '':'' @ body, sch]\<rparr>"
    unfolding styleRegExp_def Let_def r_def [symmetric] r1_def [symmetric] sch_def [symmetric]
      r2_def [symmetric] body_def [symmetric]
    by (auto split: if_splits)
  from sn have s: "sch = ''file'' \<or> sch = ''qrc''" and s1: "startsWith r1 (sch @ '':'')"
    unfolding sch_def by (auto split: if_splits)
  have 1: \<open>r = ''url("'' @ r1\<close>
    unfolding r1_def by (rule startsWith_drop [OF u]) simp
  have "r1 = (sch @ '':'') @ r2"
    unfolding r2_def by (rule startsWith_drop [OF s1]) simp
  then have 2: "r1 = sch @ '':'' @ r2" by simp
  have 3: "r2 = body @ drop (length body) r2"
    unfolding body_def dropWhile_eq_drop [symmetric] by simp
  have 4: \<open>drop (length body) r2 = ''");'' @ drop 3 (drop (length body) r2)\<close>
    by (rule startsWith_drop [OF e]) simp
  define T where \<open>T = ''url("'' @ sch @ '':'' @ body @ ''");''\<close>
  have lt: "length T = 5 + (length sch + 1 + length body) + 3"
    by (simp add: T_def)
  have "r = T @ drop 3 (drop (length body) r2)"
    unfolding T_def using 1 2 3 4 by (metis append.assoc)
  then have d: \<open>r = ''url("'' @ sch @ '':'' @ body @ ''");'' @ drop 3 (drop (length body) r2)\<close>
    and "take (length T) r = T"
    unfolding T_def by (simp, metis append_eq_conv_conj)
  with m lt have c: "capturedTexts m = [T, sch @ '':'' @ body, sch]"
    and l: "matchedLength m = 9 + length sch + length body"
    by simp_all
  have \<open>\<forall>c\<in>set body. c \<noteq> CHR ''"'' \<and> c \<noteq> CHR '')''\<close>
    unfolding body_def by (auto dest: set_takeWhileD)
  with s bn d c [unfolded T_def] l wb show ?thesis
    unfolding r_def by blast
qed

lemma styleRegExp_match:
  assumes wb: "wordBoundary s i"
    and d: \<open>drop i s = ''url("'' @ sch @ '':'' @ body @ ''");'' @ rest\<close>
    and sch: "sch = ''file'' \<or> sch = ''qrc''" and bn: "body \<noteq> []"
    and nb: \<open>\<forall>c\<in>set body. c \<noteq> CHR ''"'' \<and> c \<noteq> CHR '')''\<close>
  shows \<open>styleRegExp s i = Some \<lparr>matchedLength = 9 + length sch + length body,
      capturedTexts = [''url("'' @ sch @ '':'' @ body @ ''");'', sch @ '':'' @ body, sch]\<rparr>\<close>
proof -
  define T where \<open>T = ''url("'' @ sch @ '':'' @ body @ ''");''\<close>
  define r where "r = drop i s"
  have lt: "5 + (length sch + 1 + length body) + 3 = length T"
    by (simp add: T_def)
  have rT: "r = T @ rest"
    unfolding r_def T_def d by simp
  have tw: \<open>takeWhile (\<lambda>c. c \<noteq> CHR ''"'' \<and> c \<noteq> CHR '')'') (body @ ''");'' @ rest) = body\<close>
    using nb by simp
  have u: \<open>startsWith r ''url("''\<close>
    unfolding rT T_def by (simp add: startsWith_def)
  have r1: \<open>drop 5 r = sch @ '':'' @ body @ ''");'' @ rest\<close>
    unfolding rT T_def by simp
  have s1: "(if startsWith (drop 5 r) ''file:'' then ''file''
             else if startsWith (drop 5 r) ''qrc:'' then ''qrc'' else []) = sch"
    unfolding r1 using sch by (auto simp: startsWith_def)
  have r2: \<open>drop (length sch + 1) (drop 5 r) = body @ ''");'' @ rest\<close>
    unfolding r1 by simp
  have e: \<open>startsWith (drop (length body) (body @ ''");'' @ rest)) ''");''\<close>
    by (simp add: startsWith_def)
  have "styleRegExp s i = Some \<lparr>matchedLength = 5 + (length sch + 1 + length body) + 3,
      capturedTexts = [take (5 + (length sch + 1 + length body) + 3) r, sch @ '':'' @ body, sch]\<rparr>"
    unfolding styleRegExp_def Let_def r_def [symmetric] s1 r2 tw
    using wb u sch bn e by (simp only: if_True if_False simp_thms) auto
  moreover have "take (length T) r = T"
    unfolding rT by simp
  ultimately show ?thesis
    unfolding lt T_def by simp
qed

lemma url_text_chars:
  fixes X :: string
  assumes nX: "CHR '')'' \<notin> set X"
  shows \<open>(''url("'' @ X @ ''");'') ! 0 = CHR ''u''\<close>
    and \<open>(''url("'' @ X @ ''");'') ! (7 + length X) = CHR '';''\<close>
    and \<open>(''url("'' @ X @ ''");'') ! (5 + length X) = CHR 0x22\<close>
    and \<open>\<And>k. k < 8 + length X \<Longrightarrow> (''url("'' @ X @ ''");'') ! k = CHR '')'' \<Longrightarrow> k = 6 + length X\<close>
proof -
  show \<open>(''url("'' @ X @ ''");'') ! 0 = CHR ''u''\<close> by simp
  have a: \<open>(''url("'' @ X @ ''");'') ! (5 + j) = (X @ ''");'') ! j\<close> for j
    by simp
  show \<open>(''url("'' @ X @ ''");'') ! (7 + length X) = CHR '';''\<close>
    using a [of "2 + length X"] by (simp add: nth_append)
  show \<open>(''url("'' @ X @ ''");'') ! (5 + length X) = CHR 0x22\<close>
    using a [of "length X"] by (simp add: nth_append)
  fix k
  assume k: "k < 8 + length X" and p: \<open>(''url("'' @ X @ ''");'') ! k = CHR '')''\<close>
  consider "k = 0" | "k = 1" | "k = 2" | "k = 3" | "k = 4" | "5 \<le> k" by linarith
  then show "k = 6 + length X"
  proof cases
    case 6
    then obtain j where j: "k = 5 + j" by (metis le_Suc_ex)
    with p a [of j] have pj: \<open>(X @ ''");'') ! j = CHR '')''\<close> by simp
    from k j have "j < 3 + length X" by simp
    then consider "j < length X" | "j = length X" | "j = 1 + length X" | "j = 2 + length X"
      by linarith
    then show ?thesis
    proof cases
      case 1
      then have "(X @ ''\");'') ! j \<in> set X" by (simp add: nth_append)
      with nX pj show ?thesis by simp
    next
      case 2
      with pj show ?thesis by (simp add: nth_append)
    next
      case 3
      with j show ?thesis by simp
    next
      case 4
      with pj show ?thesis by (simp add: nth_append)
    qed
  qed (use p in simp_all)
qed

lemma styleRegExp_chars:
  assumes "styleRegExp s i = Some m"
  shows "13 \<le> matchedLength m \<and> i + matchedLength m \<le> length s
    \<and> s ! i = CHR ''u'' \<and> s ! (i + matchedLength m - 1) = CHR '';''
    \<and> s ! (i + matchedLength m - 3) = CHR 0x22
    \<and> (\<forall>k<matchedLength m. s ! (i + k) = CHR '')'' \<longrightarrow> k = matchedLength m - 2)"
proof -
  from styleRegExp_shape [OF assms] obtain sch body rest where
    sch: "sch = ''file'' \<or> sch = ''qrc''" and bn: "body \<noteq> []"
    and nb: \<open>\<forall>c\<in>set body. c \<noteq> CHR ''"'' \<and> c \<noteq> CHR '')''\<close>
    and d: \<open>drop i s = ''url("'' @ sch @ '':'' @ body @ ''");'' @ rest\<close>
    and l: "matchedLength m = 9 + length sch + length body"
    by (elim exE conjE) (rule that; assumption)
  define X where "X = sch @ '':'' @ body"
  define T where \<open>T = ''url("'' @ X @ ''");''\<close>
  define n where "n = matchedLength m"
  have lX: "5 \<le> length X"
  proof -
    from bn have "1 \<le> length body" by (cases body) simp_all
    moreover from sch have "3 \<le> length sch" by auto
    ultimately show ?thesis by (simp add: X_def)
  qed
  have n: "n = 8 + length X" by (simp add: n_def l X_def)
  have lT: "length T = n" by (simp add: T_def n)
  from lX have 13: "13 \<le> n" by (simp add: n)
  have dT: "drop i s = T @ rest" by (simp add: d T_def X_def)
  have len: "i + n \<le> length s"
  proof -
    have "length (drop i s) = n + length rest" unfolding dT by (simp add: lT)
    then have "length s - i = n + length rest" by simp
    with 13 show ?thesis by linarith
  qed
  have nth: "s ! (i + k) = T ! k" if "k < n" for k
  proof -
    from that len have "i + k < length s" by simp
    then have "s ! (i + k) = drop i s ! k" by simp
    also from that have "\<dots> = T ! k"
      unfolding dT lT [symmetric] by (rule nth_append_left)
    finally show ?thesis .
  qed
  have "CHR '')'' \<notin> set sch"
    using sch by (elim disjE) simp_all
  moreover have "CHR '')'' \<notin> set body"
    using nb by blast
  ultimately have nX: "CHR '')'' \<notin> set X"
    by (simp add: X_def)
  note tc = url_text_chars [OF nX, folded T_def]
  have c0: "s ! i = CHR ''u''"
    using nth [of 0] 13 tc(1) by simp
  have "s ! (i + (n - 1)) = T ! (n - 1)" by (rule nth) (use 13 in simp)
  moreover have "n - 1 = 7 + length X" by (simp add: n)
  moreover from 13 have "i + (n - 1) = i + n - 1" by simp
  ultimately have c1: "s ! (i + n - 1) = CHR '';''"
    using tc(2) by simp
  have "s ! (i + (n - 3)) = T ! (n - 3)" by (rule nth) (use 13 in simp)
  moreover have "n - 3 = 5 + length X" by (simp add: n)
  moreover from 13 have "i + (n - 3) = i + n - 3" by simp
  ultimately have c3: "s ! (i + n - 3) = CHR 0x22"
    using tc(3) by simp
  have all: "\<forall>k<n. s ! (i + k) = CHR '')'' \<longrightarrow> k = n - 2"
  proof (intro allI impI)
    fix k assume k: "k < n" and "s ! (i + k) = CHR '')''"
    with nth have "T ! k = CHR '')''" by simp
    moreover from k have "k < 8 + length X" by (simp add: n)
    ultimately have "k = 6 + length X" by (rule tc(4) [rotated])
    then show "k = n - 2" by (simp add: n)
  qed
  from 13 len c0 c1 c3 all show ?thesis
    unfolding n_def by - (intro conjI, assumption+)
qed

lemma styleRegExp_local:
  assumes m: "styleRegExp s i = Some m"
    and t: "take (i + matchedLength m) s' = take (i + matchedLength m) s"
  shows "styleRegExp s' i = Some m"
proof -
  from styleRegExp_shape [OF m] obtain sch body rest where
    sch: "sch = ''file'' \<or> sch = ''qrc''" and bn: "body \<noteq> []"
    and nb: \<open>\<forall>c\<in>set body. c \<noteq> CHR ''"'' \<and> c \<noteq> CHR '')''\<close>
    and d: \<open>drop i s = ''url("'' @ sch @ '':'' @ body @ ''");'' @ rest\<close>
    and l: "matchedLength m = 9 + length sch + length body"
    and c: \<open>capturedTexts m = [''url("'' @ sch @ '':'' @ body @ ''");'', sch @ '':'' @ body, sch]\<close>
    and wb: "wordBoundary s i"
    by (elim exE conjE) (rule that; assumption)
  define n where "n = matchedLength m"
  define T where \<open>T = ''url("'' @ sch @ '':'' @ body @ ''");''\<close>
  have lT: "length T = n" by (simp add: T_def n_def l)
  from styleRegExp_chars [OF m] have n13: "13 \<le> n" and len: "i + n \<le> length s"
    by (simp_all add: n_def)
  from t have t': "take (i + n) s' = take (i + n) s" by (simp add: n_def)
  have len': "i + n \<le> length s'"
  proof -
    from t' have "length (take (i + n) s') = length (take (i + n) s)" by simp
    with len show ?thesis by simp
  qed
  have nth: "s' ! j = s ! j" if "j < i + n" for j
  proof -
    from that have "s' ! j = take (i + n) s' ! j" by simp
    also from that have "\<dots> = s ! j" unfolding t' by simp
    finally show ?thesis .
  qed
  have "wordBoundary s' i = wordBoundary s i"
  proof -
    from n13 have "i < i + n" "i - 1 < i + n" by simp_all
    then have "s' ! i = s ! i" "s' ! (i - 1) = s ! (i - 1)" by (simp_all add: nth)
    moreover from len len' n13 have "i < length s" "i < length s'" by simp_all
    ultimately show ?thesis by (simp add: wordBoundary_def)
  qed
  with wb have wb': "wordBoundary s' i" by simp
  have "drop i s = T @ rest"
    unfolding T_def d by simp
  then have tT: "take n (drop i s) = T"
    unfolding lT [symmetric] by simp
  have eq: "take n (drop i s') = take n (drop i s)"
    using t' by (metis drop_take add_diff_cancel_left')
  define rest' where "rest' = drop n (drop i s')"
  have "drop i s' = take n (drop i s') @ rest'"
    unfolding rest'_def by (rule append_take_drop_id [symmetric])
  then have "drop i s' = T @ rest'"
    unfolding eq tT .
  then have d': \<open>drop i s' = ''url("'' @ sch @ '':'' @ body @ ''");'' @ rest'\<close>
    unfolding T_def by simp
  have "styleRegExp s' i = Some \<lparr>matchedLength = 9 + length sch + length body,
      capturedTexts = [''url(\"'' @ sch @ '':'' @ body @ ''\");'', sch @ '':'' @ body, sch]\<rparr>"
    using wb' d' sch bn nb by (rule styleRegExp_match)
  moreover have "m = \<lparr>matchedLength = 9 + length sch + length body,
      capturedTexts = [''url(\"'' @ sch @ '':'' @ body @ ''\");'', sch @ '':'' @ body, sch]\<rparr>"
    using l c by (cases m) simp
  ultimately show ?thesis by simp
qed

lemma indexOf_None:
  assumes "indexOf s reg from = None" and "from \<le> k" and "k \<le> length s"
  shows "reg s k = None"
proof -
  have "searchFrom f i n = None \<Longrightarrow> i \<le> k \<Longrightarrow> k < i + n \<Longrightarrow> f k = None" for f i n
  proof (induction n arbitrary: i)
    case 0
    then show ?case by simp
  next
    case (Suc n)
    show ?case
    proof (cases "k = i")
      case True
      with Suc.prems(1) show ?thesis by (simp split: option.splits)
    next
      case False
      with Suc.prems have "searchFrom f (Suc i) n = None" "Suc i \<le> k" "k < Suc i + n"
        by (simp_all split: option.splits)
      then show ?thesis by (rule Suc.IH)
    qed
  qed
  from this [of "reg s" "from" "Suc (length s) - from"] assms show ?thesis
    by (simp add: indexOf_def)
qed

lemma contains_middle: "contains (a @ sub @ b) sub"
proof -
  have "startsWith (drop (length a) (a @ sub @ b)) sub"
    by (simp add: startsWith_def)
  moreover have "length a \<in> set [0..<Suc (length (a @ sub @ b))]"
    by simp
  ultimately show ?thesis
    unfolding contains_def list_ex_iff by blast
qed

lemma data_url_chars:
  assumes "j < 12"
  shows \<open>''url(\'DATA\');'' ! j \<noteq> CHR ''"''\<close>
    and \<open>''url(\'DATA\');'' ! j = CHR '';'' \<longleftrightarrow> j = 11\<close>
    and \<open>''url(\'DATA\');'' ! j = CHR ''u'' \<longleftrightarrow> j = 0\<close>
    and \<open>''url(\'DATA\');'' ! j = CHR '')'' \<longleftrightarrow> j = 10\<close>
proof -
  from assms have d: "j = 0 \<or> j = 1 \<or> j = 2 \<or> j = 3 \<or> j = 4 \<or> j = 5 \<or> j = 6
      \<or> j = 7 \<or> j = 8 \<or> j = 9 \<or> j = 10 \<or> j = 11"
    by arith
  show \<open>''url(\'DATA\');'' ! j \<noteq> CHR ''"''\<close>
    using d by (elim disjE) simp_all
  show \<open>''url(\'DATA\');'' ! j = CHR '';'' \<longleftrightarrow> j = 11\<close>
    using d by (elim disjE) simp_all
  show \<open>''url(\'DATA\');'' ! j = CHR ''u'' \<longleftrightarrow> j = 0\<close>
    using d by (elim disjE) simp_all
  show \<open>''url(\'DATA\');'' ! j = CHR '')'' \<longleftrightarrow> j = 10\<close>
    using d by (elim disjE) simp_all
qed

lemma replaced_match_before:
  assumes le: "idx + n \<le> length html"
    and m: \<open>styleRegExp (replace html idx n ''url(\'DATA\');'') i = Some m\<close>
    and i: "i < idx + 12"
  shows "i + matchedLength m \<le> idx"
proof (rule ccontr)
  define new where \<open>new = ''url(\'DATA\');''\<close>
  define h where "h = replace html idx n new"
  define e where "e = i + matchedLength m"
  assume "\<not> i + matchedLength m \<le> idx"
  then have over: "idx < e" by (simp add: e_def)
  have lnew: "length new = 12" by (simp add: new_def)
  have h: "h = take idx html @ new @ drop (idx + n) html"
    using le by (simp add: h_def replace_def)
  have hn: "h ! (idx + j) = new ! j" if "j < 12" for j
  proof -
    from le have "length (take idx html) = idx" by simp
    then have "h ! (idx + j) = (new @ drop (idx + n) html) ! j"
      unfolding h by (metis nth_append_length_plus)
    also from that have "\<dots> = new ! j" by (simp add: nth_append lnew)
    finally show ?thesis .
  qed
  from styleRegExp_chars [OF m [folded new_def h_def]]
  have l13: "13 \<le> matchedLength m" and c0: "h ! i = CHR ''u''"
    and c1: "h ! (e - 1) = CHR '';''" and c3: "h ! (e - 3) = CHR 0x22"
    and cp: "\<And>k. k < matchedLength m \<Longrightarrow> h ! (i + k) = CHR '')'' \<Longrightarrow> k = matchedLength m - 2"
    by (simp_all add: e_def)
  note dc = data_url_chars [folded new_def]
  consider "e \<le> idx + 11" | "idx + 12 \<le> e" "i \<le> idx + 9" | "idx + 12 \<le> e" "idx + 10 \<le> i"
    by linarith
  then show False
  proof cases
    case 1
    define j where "j = e - 1 - idx"
    from 1 over have j: "j < 12" "j \<noteq> 11" "e - 1 = idx + j" by (simp_all add: j_def)
    with hn [of j] c1 have "new ! j = CHR '';''" by simp
    with dc(2) [of j] j show False by simp
  next
    case 2
    define k where "k = idx + 10 - i"
    from 2 i have k: "k < matchedLength m" "i + k = idx + 10"
      by (simp_all add: k_def e_def)
    from hn [of 10] dc(4) [of 10] have "h ! (idx + 10) = CHR '')''" by simp
    with k cp [of k] have "k = matchedLength m - 2" by simp
    with k l13 have "e - 3 = idx + 9" by (simp add: e_def)
    with c3 hn [of 9] have "new ! 9 = CHR 0x22" by simp
    with dc(1) [of 9] show False by simp
  next
    case 3
    define j where "j = i - idx"
    from 3 i have j: "j < 12" "j \<noteq> 0" "i = idx + j" by (simp_all add: j_def)
    with hn [of j] c0 have "new ! j = CHR ''u''" by simp
    with dc(3) [of j] j show False by simp
  qed
qed

lemma styleRegExp_beyond:
  assumes "length s \<le> i"
  shows "styleRegExp s i = None"
proof (cases "styleRegExp s i")
  case (Some m)
  from styleRegExp_Some [OF Some] assms show ?thesis by simp
qed simp

lemma take_replace_before:
  assumes "k \<le> idx" and "idx \<le> length s"
  shows "take k (replace s idx n after) = take k s"
  using assms by (simp add: replace_def)

lemma embedStyleStep_DATA:
  assumes conv: "\<And>url. toDataUri S url False = ''DATA''"
    and i: "indexOf html styleRegExp pos = Some (idx, reg)"
  shows \<open>embedStyleStep S pos html a
    = Continue (idx + 12, replace html idx (matchedLength reg) ''url(\'DATA\');'', True)\<close>
  unfolding embedStyleStep_def i conv Let_def
  by (simp add: isMarker_def)

lemma embedStyleLoop_DATA:
  assumes conv: "\<And>url. toDataUri S url False = ''DATA''"
    and inv: "\<forall>i<pos. styleRegExp html i = None"
  shows \<open>\<exists>a' out. embedStyleLoop S pos html a = Some (a', out)
    \<and> (\<forall>i. styleRegExp out i = None)
    \<and> (if \<exists>i. styleRegExp html i \<noteq> None then a' \<and> contains out ''url(\'DATA\');''
        else a' = a \<and> out = html)\<close>
  using inv
proof (induction "length html - pos" arbitrary: pos html a rule: less_induct)
  case less
  note inv = less.prems
  have none_from: "\<forall>i. styleRegExp html i = None"
    if "\<And>i. pos \<le> i \<Longrightarrow> i \<le> length html \<Longrightarrow> styleRegExp html i = None"
  proof
    fix i
    consider "i < pos" | "pos \<le> i" "i \<le> length html" | "length html \<le> i" by linarith
    then show "styleRegExp html i = None"
      using inv that styleRegExp_beyond by cases blast+
  qed
  show ?case
  proof (cases "pos < length html")
    case False
    then have "embedStyleLoop S pos html a = Some (a, html)"
      by (subst embedStyleLoop.simps) simp
    moreover from False have "\<forall>i. styleRegExp html i = None"
      by (intro none_from styleRegExp_beyond) simp
    ultimately show ?thesis by simp
  next
    case True
    show ?thesis
    proof (cases "indexOf html styleRegExp pos")
      case None
      then have "embedStyleStep S pos html a = Break"
        by (simp add: embedStyleStep_def)
      with True have "embedStyleLoop S pos html a = Some (a, html)"
        by (subst embedStyleLoop.simps) simp
      moreover have "\<forall>i. styleRegExp html i = None"
        using indexOf_None [OF None] by (intro none_from)
      ultimately show ?thesis by simp
    next
      case (Some r)
      obtain idx reg where r: "r = (idx, reg)" by (cases r) auto
      note i = Some [unfolded r]
      define html' where \<open>html' = replace html idx (matchedLength reg) ''url(\'DATA\');''\<close>
      have step: "embedStyleStep S pos html a = Continue (idx + 12, html', True)"
        unfolding html'_def using conv i by (rule embedStyleStep_DATA)
      note f = indexOf_Some [OF i]
      from styleRegExp_Some [OF f(3)] have n: "0 < matchedLength reg"
        and le: "idx + matchedLength reg \<le> length html"
        by simp_all
      have inv': "\<forall>j<idx + 12. styleRegExp html' j = None"
      proof (intro allI impI)
        fix j assume j: "j < idx + 12"
        show "styleRegExp html' j = None"
        proof (cases "styleRegExp html' j")
          case (Some m)
          from replaced_match_before [OF le Some [unfolded html'_def] j]
          have b: "j + matchedLength m \<le> idx" .
          with le have "take (j + matchedLength m) html = take (j + matchedLength m) html'"
            unfolding html'_def by (simp add: take_replace_before)
          from styleRegExp_local [OF Some this] have m: "styleRegExp html j = Some m" .
          from styleRegExp_Some [OF Some] b have "j < idx" by simp
          then consider "j < pos" | "pos \<le> j" "j < idx" by linarith
          then show ?thesis
          proof cases
            case 1
            with inv m show ?thesis by simp
          next
            case 2
            with f(4) m show ?thesis by simp
          qed
        qed simp
      qed
      have len': "length html' = idx + 12 + (length html - (idx + matchedLength reg))"
        unfolding html'_def using le by (simp add: replace_def)
      with f(1) n le have "length html' - (idx + 12) < length html - pos" by simp
      from less.hyps [OF this inv', of True] obtain a' out where
        l: "embedStyleLoop S (idx + 12) html' True = Some (a', out)"
        and no: "\<forall>i. styleRegExp out i = None"
        and c: \<open>if \<exists>i. styleRegExp html' i \<noteq> None then a' \<and> contains out ''url(\'DATA\');''
                else a' = True \<and> out = html'\<close>
        by blast
      have "embedStyleLoop S pos html a = Some (a', out)"
        using True step l by (subst embedStyleLoop.simps) simp
      moreover have \<open>contains html' ''url(\'DATA\');''\<close>
      proof -
        from le have \<open>html' = take idx html @ ''url(\'DATA\');'' @ drop (idx + matchedLength reg) html\<close>
          by (simp add: html'_def replace_def)
        then show ?thesis by (metis contains_middle)
      qed
      with c have \<open>a' \<and> contains out ''url(\'DATA\');''\<close>
        by (auto split: if_splits)
      moreover from f(3) have "\<exists>i. styleRegExp html i \<noteq> None" by auto
      ultimately show ?thesis using no
        by (intro exI [of _ a'] exI [of _ out]) simp
    qed
  qed
qed

text \<open>
  C7, as the code has it. The pattern of \<^verbatim>\<open>embedStyleResources\<close> ends with \<^verbatim>\<open>"\);\<close> and
  starts with \<^verbatim>\<open>\b\<close>: a reference is rewritten only when the semicolon follows the closing
  parenthesis and \<^verbatim>\<open>url\<close> starts at a word boundary. For style content in which
  \<^verbatim>\<open>url("file:///a/b.png");\<close> stands at the start or after a character that is no word
  character, and a converter that maps every URL to \<^verbatim>\<open>DATA\<close>, the function returns true, the
  output contains \<^verbatim>\<open>url('DATA');\<close>, and no text that the pattern matches is left in the output.
\<close>

theorem embedStyleResources_DATA:
  assumes conv: "\<And>url. toDataUri S url False = ''DATA''"
    and b: "pre = [] \<or> \<not> isWord (last pre)"
  shows \<open>\<exists>out. embedStyleResources S (pre @ ''url("file:///a/b.png");'' @ post) = Some (True, out)
    \<and> contains out ''url(\'DATA\');''
    \<and> (\<forall>i. styleRegExp out i = None)\<close>
proof -
  define s where \<open>s = pre @ ''url("file:///a/b.png");'' @ post\<close>
  have d: \<open>drop (length pre) s = ''url("'' @ ''file'' @ '':'' @ ''///a/b.png'' @ ''");'' @ post\<close>
    by (simp add: s_def)
  have u: "s ! length pre = CHR ''u''"
    by (simp add: s_def nth_append)
  have l: "length pre < length s"
    by (simp add: s_def)
  have w: "isWord (CHR ''u'')"
    by (simp add: isWord_def isLetterOrNumber_def)
  have wb: "wordBoundary s (length pre)"
  proof (cases "pre = []")
    case True
    with u l w show ?thesis by (simp add: wordBoundary_def)
  next
    case False
    then have "s ! (length pre - 1) = last pre"
      by (simp add: s_def nth_append last_conv_nth)
    with False b u l w show ?thesis by (simp add: wordBoundary_def)
  qed
  have \<open>styleRegExp s (length pre)
      = Some \<lparr>matchedLength = 9 + length ''file'' + length ''///a/b.png'',
          capturedTexts = [''url("'' @ ''file'' @ '':'' @ ''///a/b.png'' @ ''");'',
                           ''file'' @ '':'' @ ''///a/b.png'', ''file'']\<rparr>\<close>
    using wb d by (rule styleRegExp_match) simp_all
  then have ex: "\<exists>i. styleRegExp s i \<noteq> None" by blast
  from embedStyleLoop_DATA [of S 0 s False, OF conv] obtain a' out where
    "embedStyleLoop S 0 s False = Some (a', out)" "\<forall>i. styleRegExp out i = None"
    \<open>if \<exists>i. styleRegExp s i \<noteq> None then a' \<and> contains out ''url(\'DATA\');''
     else a' = False \<and> out = s\<close>
    by auto
  with ex have \<open>embedStyleResources S s = Some (True, out) \<and> contains out ''url(\'DATA\');''
      \<and> (\<forall>i. styleRegExp out i = None)\<close>
    by (simp add: embedStyleResources_def)
  then show ?thesis unfolding s_def by blast
qed

theorem embedStyleResources_DATA_counterexample:
  \<open>contains ''p{background:url("file:///a/b.png")}'' ''url("file:///a/b.png")''
   \<and> (\<forall>url keepTitle. toDataUri stubServices url keepTitle = ''DATA'')
   \<and> embedStyleResources stubServices ''p{background:url("file:///a/b.png")}''
       = Some (False, ''p{background:url("file:///a/b.png")}'')
   \<and> contains ''p{background:url("file:///a/b.png")}'' ''url("file:''
   \<and> \<not> contains ''p{background:url("file:///a/b.png")}'' ''url(\'DATA\')''
   \<and> contains ''xurl("file:///a/b.png");'' ''url("file:///a/b.png")''
   \<and> embedStyleResources stubServices ''xurl("file:///a/b.png");''
       = Some (False, ''xurl("file:///a/b.png");'')\<close>
proof -
  have \<open>\<forall>url keepTitle. toDataUri stubServices url keepTitle = ''DATA''\<close>
    by (simp add: stubServices_def)
  moreover have \<open>contains ''p{background:url("file:///a/b.png")}'' ''url("file:///a/b.png")''\<close>
    by code_simp
  moreover have \<open>embedStyleResources stubServices ''p{background:url("file:///a/b.png")}''
       = Some (False, ''p{background:url("file:///a/b.png")}'')\<close>
    by code_simp
  moreover have \<open>contains ''p{background:url("file:///a/b.png")}'' ''url("file:''\<close>
    by code_simp
  moreover have \<open>\<not> contains ''p{background:url("file:///a/b.png")}'' ''url(\'DATA\')''\<close>
    by code_simp
  moreover have \<open>contains ''xurl("file:///a/b.png");'' ''url("file:///a/b.png")''\<close>
    by code_simp
  moreover have \<open>embedStyleResources stubServices ''xurl("file:///a/b.png");''
       = Some (False, ''xurl("file:///a/b.png");'')\<close>
    by code_simp
  ultimately show ?thesis by blast
qed

theorem embedStyleResources_DATA_witness:
  \<open>(\<forall>url. toDataUri stubServices url False = ''DATA'')
   \<and> \<not> isWord (last ''p{background:'')
   \<and> embedStyleResources stubServices (''p{background:'' @ ''url("file:///a/b.png");'' @ ''}'')
       = Some (True, ''p{background:url(\'DATA\');}'')
   \<and> contains ''p{background:url(\'DATA\');}'' ''url(\'DATA\');''
   \<and> \<not> contains ''p{background:url(\'DATA\');}'' ''url("file:''\<close>
proof -
  have 1: \<open>toDataUri stubServices url False = ''DATA''\<close> for url
    by (simp add: stubServices_def)
  have 2: \<open>''p{background:'' = [] \<or> \<not> isWord (last ''p{background:'')\<close>
    by (simp add: isWord_def isLetterOrNumber_def)
  have 3: \<open>embedStyleResources stubServices (''p{background:'' @ ''url("file:///a/b.png");'' @ ''}'')
       = Some (True, ''p{background:url(\'DATA\');}'')\<close>
    by code_simp
  have 4: \<open>\<not> contains ''p{background:url(\'DATA\');}'' ''url("file:''\<close>
    by code_simp
  from embedStyleResources_DATA [of stubServices \<open>''p{background:''\<close> \<open>''}''\<close>, OF 1 2] 3
  have \<open>contains ''p{background:url(\'DATA\');}'' ''url(\'DATA\');''\<close>
    by simp
  with 1 2 3 4 show ?thesis by simp
qed

end
